theory Spec2Isabelle
  imports Complex_Main "HOL-Library.Word"
begin

unbundle bit_operations_syntax

chapter \<open>The hibernation image-preparation and atomic-copy engine\<close>

text \<open>
  A shallow embedding of the image-preparation engine (\<^verbatim>\<open>kernel/power/prepare_image.c\<close>),
  the atomic copy (\<^verbatim>\<open>kernel/power/atomic_copy.c\<close>), the page-set routines
  (\<^verbatim>\<open>kernel/power/pagedir.c\<close>) and the swap signature code
  (\<^verbatim>\<open>kernel/power/tuxonice_swap.c\<close>).

  Conventions. A C \<^verbatim>\<open>int\<close> that counts pages is an \<^typ>\<open>int\<close>: the counters are bounded
  by the number of page frames, so no arithmetic on them leaves the 32-bit range, and C's
  division, which truncates towards zero, is written out (\<open>c_div\<close>). Page frame numbers
  are \<^typ>\<open>nat\<close>. A bitmap over page frames is a function \<^typ>\<open>nat \<Rightarrow> bool\<close>. A word of
  flag bits addressed by enum constants is a set of those constants. Bytes in memory are
  \<^typ>\<open>8 word\<close>, and multi-byte values are stored little-endian, as on x86, the
  architecture the atomic copy code names.
\<close>

section \<open>The swap signature\<close>

type_synonym byte = "8 word"

text \<open>Memory as seen through a \<^verbatim>\<open>char *\<close>: the byte at each offset from the pointer.\<close>

type_synonym bytemem = "nat \<Rightarrow> byte"

definition char_bytes :: "string \<Rightarrow> byte list" where
  "char_bytes s = map of_char s"

text \<open>\<^verbatim>\<open>!memcmp(lit, header, n)\<close>: the first \<open>n\<close> bytes of both agree.\<close>

definition memcmp_eq :: "string \<Rightarrow> bytemem \<Rightarrow> nat \<Rightarrow> bool" where
  "memcmp_eq lit header n = (map header [0..<n] = take n (char_bytes lit))"

text \<open>The \<open>n\<close> low bytes of a word, least significant first.\<close>

definition le_bytes :: "'a::len word \<Rightarrow> nat \<Rightarrow> byte list" where
  "le_bytes w n = map (\<lambda>k. ucast (drop_bit (8 * k) w)) [0..<n]"

definition store_bytes :: "bytemem \<Rightarrow> nat \<Rightarrow> byte list \<Rightarrow> bytemem" where
  "store_bytes m off bs =
     (\<lambda>i. if off \<le> i \<and> i < off + length bs then bs ! (i - off) else m i)"

text \<open>\<^verbatim>\<open>memcpy(header, lit, n)\<close>.\<close>

definition memcpy_lit :: "bytemem \<Rightarrow> string \<Rightarrow> nat \<Rightarrow> bytemem" where
  "memcpy_lit header lit n = store_bytes header 0 (take n (char_bytes lit))"

text \<open>Reading a \<^verbatim>\<open>u32\<close> (or a \<^verbatim>\<open>dev_t\<close>, which is one) through a cast pointer.\<close>

definition load32 :: "bytemem \<Rightarrow> nat \<Rightarrow> 32 word" where
  "load32 m off =
     ucast (m off) OR push_bit 8 (ucast (m (off + 1)))
       OR push_bit 16 (ucast (m (off + 2))) OR push_bit 24 (ucast (m (off + 3)))"

text \<open>
  The kernel's \<^verbatim>\<open>ffs(int)\<close>: the position of the least significant set bit, counted
  from 1, and 0 for 0.
\<close>

definition ffs :: "32 word \<Rightarrow> nat" where
  "ffs x = (case find (bit x) [0..<32] of None \<Rightarrow> 0 | Some n \<Rightarrow> Suc n)"

text \<open>
  The globals the signature code writes: \<^verbatim>\<open>header_dev_t\<close>, \<^verbatim>\<open>headerblock\<close> (an
  \<^verbatim>\<open>unsigned long\<close>: a word \<open>'l word\<close> whose width is \<^verbatim>\<open>BITS_PER_LONG\<close>) and the
  \<^verbatim>\<open>TOI_RESUMED_BEFORE\<close> bit of \<^verbatim>\<open>toi_state\<close>.
\<close>

record 'ulong swap_globals =
  header_dev_t :: "32 word"
  headerblock :: "'ulong"
  resumed_before :: bool

definition signature_type :: "bytemem \<Rightarrow> int" where
  "signature_type header =
     (if memcmp_eq ''S1SUSP'' header 6 then 2
      else if memcmp_eq ''S2SUSP'' header 6 then 3
      else if memcmp_eq ''S1SUSPEND'' header 9 then 4
      else if memcmp_eq ''z'' header 1 then 12
      else if memcmp_eq ''Z'' header 1 then 13
      else - 1)"

text \<open>
  \<^verbatim>\<open>parse_signature(header, restore)\<close> returns the type, and leaves the header and the
  globals as returned here.
\<close>

definition parse_signature ::
  "bytemem \<Rightarrow> bool \<Rightarrow> ('l::len) word swap_globals
     \<Rightarrow> int \<times> bytemem \<times> 'l word swap_globals" where
  "parse_signature header restore g =
     (if memcmp_eq ''SWAP-SPACE'' header 10 then (0, header, g)
      else if memcmp_eq ''SWAPSPACE2'' header 10 then (1, header, g)
      else
        let type = signature_type header;
            g' = (if type > 11
                  then g\<lparr>header_dev_t := load32 header 1,
                         resumed_before := (header 5 AND 0x80 \<noteq> 0),
                         headerblock := ucast (load32 header 6)\<rparr>
                  else g);
            header' = (if restore \<and> type > 5
                       then (if type AND 1 \<noteq> 0
                             then memcpy_lit header ''SWAPSPACE2'' 10
                             else memcpy_lit header ''SWAP-SPACE'' 10)
                       else header)
        in (type, header', g'))"

text \<open>
  \<^verbatim>\<open>prepare_signature(bdev, block, current_header)\<close>. The block is stored through an
  \<^verbatim>\<open>unsigned long *\<close> at offset 6, so \<^verbatim>\<open>BITS_PER_LONG / 8\<close> bytes are written there.
\<close>

definition prepare_signature ::
  "32 word \<Rightarrow> ('l::len) word \<Rightarrow> bytemem \<Rightarrow> 'l word swap_globals
     \<Rightarrow> int \<times> bytemem \<times> 'l word swap_globals" where
  "prepare_signature bdev block current_header g =
     (case parse_signature current_header False g of
        (current_type, hdr, g1) \<Rightarrow>
          if current_type > 1 \<and> current_type < 6 then (1, hdr, g1)
          else if LENGTH('l) = 64 \<and> ffs (ucast block) > 31 then (1, hdr, g1)
          else
            let h0 = hdr(0 := (if current_type AND 1 \<noteq> 0 then of_char CHR ''Z''
                               else of_char CHR ''z''));
                h1 = store_bytes h0 1 (le_bytes bdev 4);
                h2 = store_bytes h1 6 (le_bytes block (LENGTH('l) div 8))
            in (0, h2, g1))"

section \<open>Flag words\<close>

text \<open>
  The result states of \<^verbatim>\<open>tuxonice.h\<close>. The older sources under \<^verbatim>\<open>kernel/power\<close> spell the
  same constants with the prefix \<^verbatim>\<open>SUSPEND_\<close>.
\<close>

datatype result_state =
    TOI_ABORTED | TOI_ABORT_REQUESTED | TOI_NOSTORAGE_AVAILABLE | TOI_INSUFFICIENT_STORAGE
  | TOI_FREEZING_FAILED | TOI_KEPT_IMAGE | TOI_WOULD_EAT_MEMORY
  | TOI_UNABLE_TO_FREE_ENOUGH_MEMORY | TOI_PM_SEM | TOI_DEVICE_REFUSED
  | TOI_EXTRA_PAGES_ALLOW_TOO_SMALL | TOI_UNABLE_TO_PREPARE_IMAGE | TOI_FAILED_MODULE_INIT
  | TOI_FAILED_MODULE_CLEANUP | TOI_FAILED_IO | TOI_OUT_OF_MEMORY | TOI_IMAGE_ERROR
  | TOI_PLATFORM_PREP_FAILED | TOI_CPU_HOTPLUG_FAILED | TOI_ARCH_PREPARE_FAILED
  | TOI_RESAVE_NEEDED | TOI_CANT_SUSPEND | TOI_NOTIFIERS_PREPARE_FAILED
  | TOI_PRE_SNAPSHOT_FAILED | TOI_PRE_RESTORE_FAILED

datatype action_state =
    TOI_REBOOT | TOI_PAUSE | TOI_SLOW | TOI_LOGALL | TOI_CAN_CANCEL | TOI_KEEP_IMAGE
  | TOI_FREEZER_TEST | TOI_SINGLESTEP | TOI_PAUSE_NEAR_PAGESET_END | TOI_TEST_FILTER_SPEED
  | TOI_TEST_BIO | TOI_NO_PAGESET2 | TOI_PM_PREPARE_CONSOLE | TOI_IGNORE_ROOTFS
  | TOI_REPLACE_SWSUSP | TOI_PAGESET2_FULL | TOI_ABORT_ON_RESAVE_NEEDED
  | TOI_NO_MULTITHREADED_IO | TOI_NO_DIRECT_LOAD | TOI_LATE_CPU_HOTPLUG

section \<open>The page space\<close>

text \<open>
  A zone as the engine reads it: its span, \<^verbatim>\<open>populated_zone\<close>, \<^verbatim>\<open>is_highmem\<close>,
  \<^verbatim>\<open>zone_idx\<close>, the blocks on its free lists (first page frame and order), its per-cpu
  page sets (for each cpu and list the \<^verbatim>\<open>count\<close> field and the pages on the list), the
  \<^verbatim>\<open>NR_FREE_PAGES\<close> counter, and its LRU lists with their counters.
\<close>

record zone =
  zone_start_pfn :: nat
  spanned_pages :: nat
  populated_zone :: bool
  is_highmem :: bool
  zone_idx :: nat
  free_area :: "(nat \<times> nat) list"
  pcp :: "(nat \<times> nat list) list"
  nr_free_pages :: nat
  nr_inactive :: nat
  inactive_list :: "nat list"
  nr_active :: nat
  active_list :: "nat list"

text \<open>
  A task as \<^verbatim>\<open>suspend_mark_pages_for_pageset2\<close> reads it: whether it has an \<^verbatim>\<open>mm\<close>,
  the flags \<^verbatim>\<open>PF_BORROWED_MM\<close> and \<^verbatim>\<open>PF_NOFREEZE\<close>, whether it is \<^verbatim>\<open>current\<close>, and
  the page frames \<^verbatim>\<open>follow_page\<close> finds in those of its areas that are not skipped
  (none when it has no \<^verbatim>\<open>active_mm\<close>).
\<close>

record task =
  has_mm :: bool
  pf_borrowed_mm :: bool
  pf_nofreeze :: bool
  is_current :: bool
  mapped_pages :: "nat list"

text \<open>
  Everything outside the engine that its code reads: the zones, the tasks, the kernel's
  predicates on page frames, the values the modules and the configuration supply, and
  \<open>opaque\<close>, the state of the collaborators that this code never reads.
\<close>

record world =
  zones :: "zone list"
  tasks :: "task list"
  pfn_valid :: "nat \<Rightarrow> bool"
  saveable_page :: "nat \<Rightarrow> bool"
  saveable_highmem_page :: "nat \<Rightarrow> bool"
  PageHighMem :: "nat \<Rightarrow> bool"
  max_pfn :: nat
  ZONE_HIGHMEM :: nat
  MAX_NR_ZONES :: nat
  MIN_FREE_RAM :: int
  PAGE_SIZE :: int
  sizeof_unsigned_long :: int
  sizeof_suspend_header :: int
  suspend_header_storage_for_modules :: int
  suspend_pageflags_space_needed :: int
  suspend_memory_for_modules :: int
  suspend_expected_compression_ratio :: int
  opaque :: nat

text \<open>What the engine asks of its collaborators, in the order it asks.\<close>

datatype event =
    Prepare_status string
  | Message string
  | Cond_pause
  | Update_status
  | Display_stats bool
  | Thaw_processes
  | Thaw_kernel_threads
  | Freeze_processes
  | Storage_available
  | Allocate_storage int
  | Allocate_header_space int
  | Allocate_checksum_pages
  | Drop_pagecache
  | Shrink_one_zone nat int
  | Get_extra_pd1_allowance
  | Unlink_lru_lists
  | Abort_suspend result_state string
  | Calculate_check_checksums
  | Free_checksum_pages
  | Copy_page nat nat
  | Kmalloc
  | Get_free_pages nat
  | Device_suspend
  | Device_resume

text \<open>
  The hibernation session: the engine's counters, its bitmaps over page frames, the flag
  words, the contents of memory (for each page frame its words), the world, and the
  requests made so far. \<open>num_free\<close> is the local variable of \<^verbatim>\<open>flag_image_pages\<close>, kept
  because the function prints it.
\<close>

record toi =
  pagedir1_size :: int
  pagedir1_highmem :: int
  pagedir2_size :: int
  pagedir2_highmem :: int
  num_nosave :: int
  num_free :: int
  header_space_allocated :: int
  main_storage_allocated :: int
  storage_available :: int
  extra_pd1_pages_allowance :: int
  extra_pd1_pages_used :: int
  image_size_limit :: int
  extra_pages_allocated :: int
  extras_list :: "(nat \<times> nat) list"
  toi_result :: "result_state set"
  toi_action :: "action_state set"
  nosave_map :: "nat \<Rightarrow> bool"
  free_map :: "nat \<Rightarrow> bool"
  pageset1_map :: "nat \<Rightarrow> bool"
  pageset1_copy_map :: "nat \<Rightarrow> bool"
  pageset2_map :: "nat \<Rightarrow> bool"
  resave_map :: "nat \<Rightarrow> bool"
  memory :: "nat \<Rightarrow> nat \<Rightarrow> nat"
  world :: world
  events :: "event list"

definition test_result_state :: "result_state \<Rightarrow> toi \<Rightarrow> bool" where
  "test_result_state b s = (b \<in> toi_result s)"

definition test_action_state :: "action_state \<Rightarrow> toi \<Rightarrow> bool" where
  "test_action_state b s = (b \<in> toi_action s)"

text \<open>\<^verbatim>\<open>set_abort_result(bit)\<close> sets \<^verbatim>\<open>TOI_ABORTED\<close> and then the bit.\<close>

definition set_abort_result :: "result_state \<Rightarrow> toi \<Rightarrow> toi" where
  "set_abort_result b s = s\<lparr>toi_result := insert b (insert TOI_ABORTED (toi_result s))\<rparr>"

definition log_event :: "event \<Rightarrow> toi \<Rightarrow> toi" where
  "log_event e s = s\<lparr>events := events s @ [e]\<rparr>"

subsection \<open>The map of free pages\<close>

text \<open>The page frames of a free block of the given order.\<close>

definition block_pages :: "nat \<times> nat \<Rightarrow> nat list" where
  "block_pages b = [fst b ..< fst b + 2 ^ snd b]"

definition zone_free_pages :: "zone \<Rightarrow> nat list" where
  "zone_free_pages z = concat (map block_pages (free_area z)) @ concat (map snd (pcp z))"

definition set_bits :: "nat list \<Rightarrow> (nat \<Rightarrow> bool) \<Rightarrow> (nat \<Rightarrow> bool)" where
  "set_bits ps m = (\<lambda>p. p \<in> set ps \<or> m p)"

definition in_span :: "zone \<Rightarrow> nat \<Rightarrow> bool" where
  "in_span z p = (zone_start_pfn z \<le> p \<and> p < zone_start_pfn z + spanned_pages z)"

text \<open>
  One round of the loop of \<^verbatim>\<open>generate_free_page_map\<close>: the bits of the zone's span are
  cleared, then the bit of every page on a free list or a per-cpu list is set.
\<close>

definition free_map_zone :: "zone \<Rightarrow> (nat \<Rightarrow> bool) \<Rightarrow> (nat \<Rightarrow> bool)" where
  "free_map_zone z m =
     (if \<not> populated_zone z then m
      else set_bits (zone_free_pages z) (\<lambda>p. \<not> in_span z p \<and> m p))"

definition generate_free_page_map :: "toi \<Rightarrow> toi" where
  "generate_free_page_map s =
     s\<lparr>free_map := fold free_map_zone (zones (world s)) (free_map s)\<rparr>"

text \<open>
  \<^verbatim>\<open>size_of_free_region(page)\<close>, for a page of the zone \<open>z\<close> that is being scanned: the
  number of page frames from \<open>posn\<close> on, up to the last of the zone, that are flagged
  free without a gap. The loop is \<open>free_run\<close>.
\<close>

function free_run :: "(nat \<Rightarrow> bool) \<Rightarrow> nat \<Rightarrow> nat \<Rightarrow> nat" where
  "free_run fm last_in_zone_succ posn =
     (if posn < last_in_zone_succ \<and> fm posn then free_run fm last_in_zone_succ (Suc posn)
      else posn)"
  by pat_completeness auto
termination
  by (relation "measure (\<lambda>(fm, l, p). l - p)") auto

definition size_of_free_region :: "toi \<Rightarrow> zone \<Rightarrow> nat \<Rightarrow> nat" where
  "size_of_free_region s z page =
     free_run (free_map s) (zone_start_pfn z + spanned_pages z) page - page"

subsection \<open>Classification\<close>

text \<open>
  The body of the loop of \<^verbatim>\<open>flag_image_pages\<close> for a valid page frame that is not free.
\<close>

definition flag_page :: "zone \<Rightarrow> nat \<Rightarrow> toi \<Rightarrow> toi" where
  "flag_page z pfn s =
     (let page = (if is_highmem z then saveable_highmem_page (world s) pfn
                  else saveable_page (world s) pfn);
          high = PageHighMem (world s) pfn
      in
        if \<not> page \<or> nosave_map s pfn then s\<lparr>num_nosave := num_nosave s + 1\<rparr>
        else if pageset2_map s pfn then
          let s1 = s\<lparr>pagedir2_size := pagedir2_size s + 1\<rparr>;
              s2 = (if high then s1\<lparr>pagedir2_highmem := pagedir2_highmem s1 + 1\<rparr>
                    else s1\<lparr>pageset1_copy_map := (pageset1_copy_map s1)(pfn := True)\<rparr>)
          in
            if resave_map s2 pfn then
              let s3 = s2\<lparr>pageset1_map := (pageset1_map s2)(pfn := True),
                         pageset1_copy_map := (pageset1_copy_map s2)(pfn := False),
                         pagedir1_size := pagedir1_size s2 + 1\<rparr>
              in if high then s3\<lparr>pagedir1_highmem := pagedir1_highmem s3 + 1\<rparr> else s3
            else s2
        else
          let s1 = s\<lparr>pagedir1_size := pagedir1_size s + 1,
                     pageset1_map := (pageset1_map s)(pfn := True)\<rparr>
          in if high then s1\<lparr>pagedir1_highmem := pagedir1_highmem s1 + 1\<rparr> else s1)"

text \<open>The loop over one zone, from the index \<open>loop\<close> on.\<close>

function flag_zone_from :: "zone \<Rightarrow> nat \<Rightarrow> toi \<Rightarrow> toi" where
  "flag_zone_from z loop s =
     (if loop < spanned_pages z then
        let pfn = zone_start_pfn z + loop in
          if \<not> pfn_valid (world s) pfn then flag_zone_from z (loop + 1) s
          else
            let chunk_size = size_of_free_region s z pfn in
              if chunk_size \<noteq> 0
              then flag_zone_from z (loop + (chunk_size - 1) + 1)
                     (s\<lparr>num_free := num_free s + int chunk_size\<rparr>)
              else flag_zone_from z (loop + 1) (flag_page z pfn s)
      else s)"
  by pat_completeness auto
termination
  by (relation "measure (\<lambda>(z, loop, s). spanned_pages z - loop)") auto

definition flag_zone :: "zone \<Rightarrow> toi \<Rightarrow> toi" where
  "flag_zone z s = (if \<not> populated_zone z then s else flag_zone_from z 0 s)"

definition flag_image_pages :: "bool \<Rightarrow> toi \<Rightarrow> toi" where
  "flag_image_pages atomic_copy s =
     (let s0 = s\<lparr>num_free := 0, pagedir1_size := 0, pagedir2_size := 0,
                 pagedir1_highmem := 0, pagedir2_highmem := 0, num_nosave := 0,
                 pageset1_map := (\<lambda>_. False)\<rparr>;
          s1 = generate_free_page_map s0;
          s2 = fold flag_zone (zones (world s1)) s1
      in if atomic_copy then s2 else log_event (Message ''Count data pages'') s2)"

declare free_run.simps [simp del]
declare flag_zone_from.simps [simp del]

section \<open>The collaborators\<close>

text \<open>
  The functions the engine calls and whose code is elsewhere in the kernel. Each acts on
  the world and may return a value; none of them writes a variable of the engine, but for
  \<open>calculate_check_checksums\<close>, which compares checksums and may flag pages, and so acts on
  the session. The
  zone argument of \<open>shrink_one_zone\<close> is the position of the zone in the list of zones;
  \<open>get_free_pages\<close> returns the first page frame of the block it allocated, and
  \<open>device_suspend_and_power_down\<close> and \<open>device_power_up_and_resume\<close> stand for the two
  runs of driver calls in \<^verbatim>\<open>get_extra_pd1_allowance\<close>.
\<close>

record env =
  allocator_storage_available :: "world \<Rightarrow> int"
  allocator_allocate_storage :: "int \<Rightarrow> world \<Rightarrow> world"
  allocator_storage_allocated :: "world \<Rightarrow> int"
  allocator_allocate_header_space :: "int \<Rightarrow> world \<Rightarrow> int \<times> world"
  freeze_processes :: "world \<Rightarrow> int \<times> world"
  thaw_processes :: "world \<Rightarrow> world"
  thaw_kernel_threads :: "world \<Rightarrow> world"
  drop_pagecache :: "world \<Rightarrow> world"
  shrink_one_zone :: "nat \<Rightarrow> int \<Rightarrow> world \<Rightarrow> world"
  allocate_checksum_pages :: "world \<Rightarrow> world"
  calculate_check_checksums :: "toi \<Rightarrow> toi"
  free_checksum_pages :: "world \<Rightarrow> world"
  kmalloc :: "world \<Rightarrow> bool \<times> world"
  get_free_pages :: "nat \<Rightarrow> world \<Rightarrow> nat option \<times> world"
  device_suspend_and_power_down :: "world \<Rightarrow> world"
  device_power_up_and_resume :: "world \<Rightarrow> world"
  unlink_lru_lists :: "world \<Rightarrow> world"

text \<open>A call that changes the world, and a call that also returns a value.\<close>

definition call :: "event \<Rightarrow> (world \<Rightarrow> world) \<Rightarrow> toi \<Rightarrow> toi" where
  "call e f s = log_event e (s\<lparr>world := f (world s)\<rparr>)"

definition call_ret :: "event \<Rightarrow> (world \<Rightarrow> 'a \<times> world) \<Rightarrow> toi \<Rightarrow> 'a \<times> toi" where
  "call_ret e f s = (case f (world s) of (r, w) \<Rightarrow> (r, log_event e (s\<lparr>world := w\<rparr>)))"

section \<open>The negotiator's arithmetic\<close>

text \<open>C's integer division truncates towards zero.\<close>

definition c_div :: "int \<Rightarrow> int \<Rightarrow> int" where
  "c_div a b = sgn a * sgn b * (\<bar>a\<bar> div \<bar>b\<bar>)"

definition DIV_ROUND_UP :: "int \<Rightarrow> int \<Rightarrow> int" where
  "DIV_ROUND_UP n d = c_div (n + d - 1) d"

text \<open>
  An \<^verbatim>\<open>int\<close> has 32 bits and the kernel is compiled so that its arithmetic wraps:
  \<open>c_int x\<close> is what an \<^verbatim>\<open>int\<close> holds when the exact result is \<open>x\<close>. The counters of
  the negotiator and the results of its functions are of type \<^verbatim>\<open>int\<close>.
  \<open>DIV_ROUND_UP_int\<close> is the macro \<^verbatim>\<open>DIV_ROUND_UP\<close> on operands of type \<^verbatim>\<open>int\<close>.
\<close>

definition c_int :: "int \<Rightarrow> int" where
  "c_int x = (x + 2147483648) mod 4294967296 - 2147483648"

definition DIV_ROUND_UP_int :: "int \<Rightarrow> int \<Rightarrow> int" where
  "DIV_ROUND_UP_int n d = c_div (c_int (n + d - 1)) d"

text \<open>
  \<^verbatim>\<open>real_nr_free_pages(zone_idx_mask)\<close>; the mask is given by the set of zone indices whose
  bit it has.
\<close>

definition zone_free_count :: "zone \<Rightarrow> int" where
  "zone_free_count z = int (sum_list (map fst (pcp z))) + int (nr_free_pages z)"

definition real_nr_free_pages :: "(nat \<Rightarrow> bool) \<Rightarrow> toi \<Rightarrow> int" where
  "real_nr_free_pages zone_idx_mask s =
     c_int (sum_list (map zone_free_count
       (filter (\<lambda>z. populated_zone z \<and> zone_idx_mask (zone_idx z)) (zones (world s)))))"

text \<open>
  Modelled from the spec: the macros \<^verbatim>\<open>all_zones_mask\<close>, \<^verbatim>\<open>real_nr_free_high_pages\<close> and
  \<^verbatim>\<open>real_nr_free_low_pages\<close> of \<^verbatim>\<open>prepare_image.h\<close> are not among the sources. The spec
  speaks of the free pages of the high memory class and of the low one: the free pages of
  the zones whose index is \<^verbatim>\<open>ZONE_HIGHMEM\<close>, and of all others.
\<close>

definition all_zones_mask :: "nat \<Rightarrow> bool" where
  "all_zones_mask i = True"

definition real_nr_free_high_pages :: "toi \<Rightarrow> int" where
  "real_nr_free_high_pages s = real_nr_free_pages (\<lambda>i. i = ZONE_HIGHMEM (world s)) s"

definition real_nr_free_low_pages :: "toi \<Rightarrow> int" where
  "real_nr_free_low_pages s = real_nr_free_pages (\<lambda>i. i \<noteq> ZONE_HIGHMEM (world s)) s"

text \<open>
  Modelled from the spec: the macros \<^verbatim>\<open>get_highmem_size\<close> and \<^verbatim>\<open>get_lowmem_size\<close> of
  \<^verbatim>\<open>pagedir.h\<close> are not among the sources. A page directory holds its total page count
  and the count of its pages in the high memory class; the low memory size is the
  difference.
\<close>

definition get_lowmem_size1 :: "toi \<Rightarrow> int" where
  "get_lowmem_size1 s = pagedir1_size s - pagedir1_highmem s"

definition get_lowmem_size2 :: "toi \<Rightarrow> int" where
  "get_lowmem_size2 s = pagedir2_size s - pagedir2_highmem s"

definition main_storage_needed :: "bool \<Rightarrow> bool \<Rightarrow> toi \<Rightarrow> int" where
  "main_storage_needed use_ecr ignore_extra_pd1_allow s =
     c_div (c_int ((pagedir1_size s + pagedir2_size s +
                     (if ignore_extra_pd1_allow then 0 else extra_pd1_pages_allowance s)) *
                   (if use_ecr then suspend_expected_compression_ratio (world s) else 100))) 100"

text \<open>
  In \<^verbatim>\<open>header_storage_needed\<close> the macro \<^verbatim>\<open>DIV_ROUND_UP\<close> has the \<^verbatim>\<open>unsigned long\<close>
  \<^verbatim>\<open>PAGE_SIZE\<close> as its divisor, so that for a number of bytes that is not negative the sum
  does not wrap.
\<close>

definition header_storage_needed :: "toi \<Rightarrow> int" where
  "header_storage_needed s =
     DIV_ROUND_UP (sizeof_suspend_header (world s) + suspend_header_storage_for_modules (world s)
                    + suspend_pageflags_space_needed (world s)) (PAGE_SIZE (world s))"

definition highpages_ps1_to_free :: "toi \<Rightarrow> int" where
  "highpages_ps1_to_free s =
     max 0 (c_int (DIV_ROUND_UP_int (c_int (pagedir1_highmem s - pagedir2_highmem s)) 2
                    - real_nr_free_high_pages s))"

definition lowpages_ps1_to_free :: "toi \<Rightarrow> int" where
  "lowpages_ps1_to_free s =
     max 0 (DIV_ROUND_UP_int
              (c_int (get_lowmem_size1 s + extra_pd1_pages_allowance s + MIN_FREE_RAM (world s)
                 + suspend_memory_for_modules (world s) - get_lowmem_size2 s
                 - real_nr_free_low_pages s - extra_pages_allocated s)) 2)"

definition current_image_size :: "toi \<Rightarrow> int" where
  "current_image_size s = c_int (pagedir1_size s + pagedir2_size s + header_space_allocated s)"

text \<open>\<^verbatim>\<open>image_size_limit << 8\<close> is the limit times 256, within the 32 bits of an \<^verbatim>\<open>int\<close>.\<close>

definition any_to_free :: "bool \<Rightarrow> toi \<Rightarrow> int" where
  "any_to_free use_image_size_limit s =
     (let user_limit = (if use_image_size_limit \<and> image_size_limit s > 0
                        then max 0 (c_int (current_image_size s - c_int (image_size_limit s * 256)))
                        else 0);
          storage_limit = max 0 (c_int (main_storage_needed True True s - storage_available s))
      in max user_limit storage_limit)"

definition amount_needed :: "bool \<Rightarrow> toi \<Rightarrow> int" where
  "amount_needed use_image_size_limit s =
     max (c_int (highpages_ps1_to_free s + lowpages_ps1_to_free s))
         (any_to_free use_image_size_limit s)"

text \<open>
  \<^verbatim>\<open>image_not_ready\<close> writes a message, pauses, and returns the disjunction;
  \<open>not_ready\<close> is the value it returns.
\<close>

definition not_ready :: "bool \<Rightarrow> toi \<Rightarrow> bool" where
  "not_ready use_image_size_limit s =
     (amount_needed use_image_size_limit s > 0 \<or>
      header_space_allocated s < header_storage_needed s \<or>
      main_storage_allocated s < main_storage_needed True True s)"

definition image_not_ready :: "bool \<Rightarrow> toi \<Rightarrow> bool \<times> toi" where
  "image_not_ready use_image_size_limit s =
     (not_ready use_image_size_limit s,
      log_event Cond_pause (log_event (Message ''Amount still needed'') s))"

definition display_stats :: "bool \<Rightarrow> bool \<Rightarrow> toi \<Rightarrow> toi" where
  "display_stats always sub_extra_pd1_allow s = log_event (Display_stats always) s"

section \<open>Marking pages for pageset2\<close>

definition clear_bits :: "nat list \<Rightarrow> (nat \<Rightarrow> bool) \<Rightarrow> (nat \<Rightarrow> bool)" where
  "clear_bits ps m = (\<lambda>p. p \<notin> set ps \<and> m p)"

definition suspend_mark_task_as_pageset :: "task \<Rightarrow> bool \<Rightarrow> toi \<Rightarrow> toi" where
  "suspend_mark_task_as_pageset t pageset2 s =
     (if pageset2 then s\<lparr>pageset2_map := set_bits (mapped_pages t) (pageset2_map s)\<rparr>
      else s\<lparr>pageset2_map := clear_bits (mapped_pages t) (pageset2_map s),
             pageset1_map := set_bits (mapped_pages t) (pageset1_map s)\<rparr>)"

definition pageset2_full_zone :: "zone \<Rightarrow> (nat \<Rightarrow> bool) \<Rightarrow> (nat \<Rightarrow> bool)" where
  "pageset2_full_zone z m =
     (let m1 = (if nr_inactive z \<noteq> 0 then set_bits (inactive_list z) m else m)
      in if nr_active z \<noteq> 0 then set_bits (active_list z) m1 else m1)"

definition pageset2_full :: "toi \<Rightarrow> toi" where
  "pageset2_full s = s\<lparr>pageset2_map := fold pageset2_full_zone (zones (world s)) (pageset2_map s)\<rparr>"

text \<open>
  The allocation of the attention list: one \<^verbatim>\<open>kmalloc\<close> for each task counted; \<open>False\<close>
  when one fails.
\<close>

fun alloc_attention_list :: "env \<Rightarrow> nat \<Rightarrow> toi \<Rightarrow> bool \<times> toi" where
  "alloc_attention_list E 0 s = (True, s)"
| "alloc_attention_list E (Suc n) s =
     (case call_ret Kmalloc (kmalloc E) s of
        (ok, s1) \<Rightarrow> if ok then alloc_attention_list E n s1 else (False, s1))"

definition needs_attention :: "task \<Rightarrow> bool" where
  "needs_attention p = (pf_nofreeze p \<or> is_current p)"

definition suspend_mark_pages_for_pageset2 :: "env \<Rightarrow> toi \<Rightarrow> toi" where
  "suspend_mark_pages_for_pageset2 E s =
     (if test_action_state TOI_NO_PAGESET2 s then s
      else
        let s1 = s\<lparr>pageset2_map := (\<lambda>_. False)\<rparr>;
            s2 = (if test_action_state TOI_PAGESET2_FULL s1 then pageset2_full s1
                  else fold (\<lambda>p. suspend_mark_task_as_pageset p True)
                         (filter (\<lambda>p. has_mm p \<and> \<not> pf_borrowed_mm p) (tasks (world s1))) s1);
            attention = filter needs_attention (tasks (world s2))
        in case alloc_attention_list E (length attention) s2 of
             (ok, s3) \<Rightarrow>
               if \<not> ok then set_abort_result TOI_UNABLE_TO_PREPARE_IMAGE s3
               else if test_result_state TOI_ABORTED s3 then s3
               else fold (\<lambda>p. suspend_mark_task_as_pageset p False) attention s3)"

definition suspend_recalculate_image_contents :: "env \<Rightarrow> bool \<Rightarrow> toi \<Rightarrow> toi" where
  "suspend_recalculate_image_contents E atomic_copy s =
     (let s1 = s\<lparr>pageset1_map := (\<lambda>_. False)\<rparr>;
          s2 = (if atomic_copy then s1
                else suspend_mark_pages_for_pageset2 E
                       (s1\<lparr>pageset1_copy_map :=
                             (\<lambda>p. pageset1_copy_map s1 p \<and> \<not> pageset2_map s1 p)\<rparr>));
          s3 = flag_image_pages atomic_copy s2
      in if atomic_copy then s3
         else
           let s4 = log_event Storage_available
                      (s3\<lparr>storage_available := allocator_storage_available E (world s3)\<rparr>)
           in display_stats False False s4)"

section \<open>Extra memory for the copy of pageset1\<close>

text \<open>The kernel's \<^verbatim>\<open>fls\<close>: the position of the most significant set bit, from 1.\<close>

function fls :: "nat \<Rightarrow> nat" where
  "fls n = (if n = 0 then 0 else Suc (fls (n div 2)))"
  by pat_completeness auto
termination
  by (relation "measure id") auto

declare fls.simps [simp del]

text \<open>\<^verbatim>\<open>while ((1 << order) > num_to_alloc) order--\<close>, for a positive number.\<close>

fun fit_order :: "int \<Rightarrow> nat \<Rightarrow> nat" where
  "fit_order num_to_alloc 0 = 0"
| "fit_order num_to_alloc (Suc k) =
     (if 2 ^ Suc k > num_to_alloc then fit_order num_to_alloc k else Suc k)"

text \<open>
  \<^verbatim>\<open>virt = __get_free_pages(flags, order); while (!virt && order) { order--; ... }\<close>:
  the block obtained, if any, and the order it was obtained at.
\<close>

fun get_pages_retry :: "env \<Rightarrow> nat \<Rightarrow> toi \<Rightarrow> nat option \<times> nat \<times> toi" where
  "get_pages_retry E 0 s =
     (case call_ret (Get_free_pages 0) (get_free_pages E 0) s of (virt, s1) \<Rightarrow> (virt, 0, s1))"
| "get_pages_retry E (Suc k) s =
     (case call_ret (Get_free_pages (Suc k)) (get_free_pages E (Suc k)) s of
        (Some p, s1) \<Rightarrow> (Some p, Suc k, s1)
      | (None, s1) \<Rightarrow> get_pages_retry E k s1)"

lemma fit_order_le: "0 < n \<Longrightarrow> 2 ^ fit_order n order \<le> n"
  by (induction order) auto

lemma get_pages_retry_order: "get_pages_retry E order s = (v, order', s') \<Longrightarrow> order' \<le> order"
proof (induction order arbitrary: s)
  case 0
  then show ?case by (auto simp: split: prod.splits)
next
  case (Suc k)
  then show ?case by (fastforce split: prod.splits option.splits)
qed

text \<open>
  The loop \<^verbatim>\<open>while (num_to_alloc)\<close> of \<^verbatim>\<open>suspend_allocate_extra_pagedir_memory\<close>. The
  number is positive on entry and every round takes off a block that fits, so it never
  falls below 0; the loop returns \<open>extra_pages_allocated\<close>.
\<close>

function extra_pagedir_loop :: "env \<Rightarrow> int \<Rightarrow> nat \<Rightarrow> toi \<Rightarrow> int \<times> toi" where
  "extra_pagedir_loop E num_to_alloc order s =
     (if num_to_alloc \<le> 0 then (extra_pages_allocated s, s)
      else
        let order1 = fit_order num_to_alloc order in
        case call_ret Kmalloc (kmalloc E) s of
          (extras_entry, s1) \<Rightarrow>
            if \<not> extras_entry then (extra_pages_allocated s1, s1)
            else
              case get_pages_retry E order1 s1 of
                (None, order2, s2) \<Rightarrow> (extra_pages_allocated s2, s2)
              | (Some newpage, order2, s2) \<Rightarrow>
                  extra_pagedir_loop E (num_to_alloc - 2 ^ order2) order2
                    (s2\<lparr>extras_list := (newpage, order2) # extras_list s2,
                        nosave_map := set_bits [newpage ..< newpage + 2 ^ order2] (nosave_map s2),
                        pageset1_copy_map :=
                          set_bits [newpage ..< newpage + 2 ^ order2] (pageset1_copy_map s2),
                        extra_pages_allocated := extra_pages_allocated s2 + 2 ^ order2\<rparr>))"
  by pat_completeness auto
termination
  by (relation "measure (\<lambda>(E, n, order, s). nat n)") auto

declare extra_pagedir_loop.simps [simp del]

definition suspend_allocate_extra_pagedir_memory :: "env \<Rightarrow> nat \<Rightarrow> int \<Rightarrow> toi \<Rightarrow> int \<times> toi" where
  "suspend_allocate_extra_pagedir_memory E MAX_ORDER extra_pages_needed s =
     (let num_to_alloc = extra_pages_needed - extra_pages_allocated s in
        if num_to_alloc < 1 then (0, s)
        else
          let order = fls (nat num_to_alloc);
              order' = (if order \<ge> MAX_ORDER then MAX_ORDER - 1 else order)
          in extra_pagedir_loop E num_to_alloc order' s)"

section \<open>Preparing the image\<close>

text \<open>\<^verbatim>\<open>if (freeze_processes()) set_abort_result(TOI_FREEZING_FAILED)\<close>.\<close>

definition freeze_or_abort :: "env \<Rightarrow> toi \<Rightarrow> toi" where
  "freeze_or_abort E s =
     (case call_ret Freeze_processes (freeze_processes E) s of
        (frozen, s1) \<Rightarrow> if frozen \<noteq> 0 then set_abort_result TOI_FREEZING_FAILED s1 else s1)"

text \<open>
  \<^verbatim>\<open>update_image\<close> in its steps: the extra pages for the copy of pageset1, where \<open>True\<close>
  is the early \<^verbatim>\<open>return\<close>; the storage for the body of the image; the storage for its
  header.
\<close>

definition reserve_extra_pages :: "env \<Rightarrow> nat \<Rightarrow> toi \<Rightarrow> bool \<times> toi" where
  "reserve_extra_pages E MAX_ORDER s =
     (let wanted = pagedir1_size s + extra_pd1_pages_allowance s - get_lowmem_size2 s in
        if wanted > extra_pages_allocated s
        then (case suspend_allocate_extra_pagedir_memory E MAX_ORDER wanted s of
                (got, s') \<Rightarrow>
                  if wanted < got
                  then (True, log_event (Message ''Want extra pages for pageset1'') s')
                  else (False, s'))
        else (False, s))"

definition allocate_main_storage :: "env \<Rightarrow> toi \<Rightarrow> toi" where
  "allocate_main_storage E s =
     (let request = min (storage_available s) (main_storage_needed False False s);
          s1 = call (Allocate_storage request) (allocator_allocate_storage E request) s
      in s1\<lparr>main_storage_allocated := allocator_storage_allocated E (world s1)\<rparr>)"

definition allocate_header_storage :: "env \<Rightarrow> toi \<Rightarrow> toi" where
  "allocate_header_storage E s =
     (let param_used = header_storage_needed s in
        case call_ret (Allocate_header_space param_used)
               (allocator_allocate_header_space E param_used) s of
          (result, s1) \<Rightarrow>
            if result \<noteq> 0
            then log_event (Message ''Still need to get more storage space for header'') s1
            else s1\<lparr>header_space_allocated := param_used\<rparr>)"

definition update_image :: "env \<Rightarrow> nat \<Rightarrow> toi \<Rightarrow> toi" where
  "update_image E MAX_ORDER s =
     (case reserve_extra_pages E MAX_ORDER (suspend_recalculate_image_contents E False s) of
        (stop, s1) \<Rightarrow>
          if stop then s1
          else
            suspend_recalculate_image_contents E False
              (call Allocate_checksum_pages (allocate_checksum_pages E)
                (freeze_or_abort E
                  (allocate_header_storage E
                    (allocate_main_storage E
                      (call Thaw_kernel_threads (thaw_kernel_threads E) s1))))))"

definition attempt_to_freeze :: "env \<Rightarrow> toi \<Rightarrow> int \<times> toi" where
  "attempt_to_freeze E s =
     (case call_ret Freeze_processes (freeze_processes E)
             (log_event (Prepare_status ''Freezing processes & syncing filesystems.'')
               (call Thaw_processes (thaw_processes E) s)) of
        (result, s1) \<Rightarrow>
          (result, if result \<noteq> 0 then set_abort_result TOI_FREEZING_FAILED s1 else s1))"

text \<open>
  The target handed to \<^verbatim>\<open>shrink_one_zone\<close> for a zone index: \<^verbatim>\<open>zone_type_free\<close>.
\<close>

definition zone_type_free_of :: "nat \<Rightarrow> int \<Rightarrow> toi \<Rightarrow> int" where
  "zone_type_free_of zi amount_wanted s =
     max (if zi = ZONE_HIGHMEM (world s) then highpages_ps1_to_free s
          else lowpages_ps1_to_free s) amount_wanted"

text \<open>
  The inner loop \<^verbatim>\<open>for_each_zone\<close> for one zone index, over the zones with their
  positions; the first component of the result tells whether it ended by \<^verbatim>\<open>break\<close>.
\<close>

fun shrink_zones :: "env \<Rightarrow> nat \<Rightarrow> (nat \<times> zone) list \<Rightarrow> int \<times> bool \<times> toi \<Rightarrow> int \<times> bool \<times> toi" where
  "shrink_zones E zi [] st = st"
| "shrink_zones E zi ((pos, z) # zs) (amount_wanted, did_eat_memory, s) =
     (if zone_idx z \<noteq> zi then shrink_zones E zi zs (amount_wanted, did_eat_memory, s)
      else
        let zone_type_free = zone_type_free_of zi amount_wanted s;
            s1 = call (Shrink_one_zone pos zone_type_free) (shrink_one_zone E pos zone_type_free) s;
            s2 = suspend_recalculate_image_contents E False s1;
            amount_wanted' = amount_needed True s2
        in if zone_type_free_of zi amount_wanted' s2 < 0 then (amount_wanted', True, s2)
           else shrink_zones E zi zs (amount_wanted', True, s2))"

text \<open>The outer loop over the zone indices below \<^verbatim>\<open>MAX_NR_ZONES\<close>.\<close>

fun shrink_zone_types :: "env \<Rightarrow> nat list \<Rightarrow> int \<times> bool \<times> toi \<Rightarrow> int \<times> bool \<times> toi" where
  "shrink_zone_types E [] st = st"
| "shrink_zone_types E (zi # zis) (amount_wanted, did_eat_memory, s) =
     (if zone_type_free_of zi amount_wanted s < 0 then (amount_wanted, did_eat_memory, s)
      else shrink_zone_types E zis
             (shrink_zones E zi (zip [0 ..< length (zones (world s))] (zones (world s)))
                (amount_wanted, did_eat_memory, s)))"

text \<open>
  \<^verbatim>\<open>eat_memory\<close> carries its locals \<^verbatim>\<open>amount_wanted\<close> and \<^verbatim>\<open>did_eat_memory\<close> along
  with the session. \<open>free_caches_only\<close> is the case -2 of the \<^verbatim>\<open>switch\<close>,
  \<open>reclaim_memory\<close> the body of the \<^verbatim>\<open>if\<close> that follows it.
\<close>

definition free_caches_only :: "env \<Rightarrow> toi \<Rightarrow> int \<times> bool \<times> toi" where
  "free_caches_only E s =
     (let s1 = suspend_recalculate_image_contents E False
                 (call Drop_pagecache (drop_pagecache E) s)
      in (amount_needed True s1, True, s1))"

definition reclaim_memory :: "env \<Rightarrow> int \<times> bool \<times> toi \<Rightarrow> int \<times> bool \<times> toi" where
  "reclaim_memory E st =
     (case st of (amount_wanted, did_eat_memory, s) \<Rightarrow>
        let s1 = call Thaw_kernel_threads (thaw_kernel_threads E)
                   (log_event (Prepare_status ''Seeking to free memory.'') s)
        in case shrink_zone_types E [0 ..< MAX_NR_ZONES (world s1)]
                  (amount_wanted, did_eat_memory, s1) of
             (amount_wanted', did_eat_memory', s2) \<Rightarrow>
               (amount_wanted', did_eat_memory', freeze_or_abort E (log_event Cond_pause s2)))"

definition eat_memory :: "env \<Rightarrow> toi \<Rightarrow> toi" where
  "eat_memory E s =
     (let s1 = suspend_recalculate_image_contents E False s;
          amount_wanted = amount_needed True s1
      in
        if image_size_limit s1 = - 1 \<and> amount_wanted > 0
        then set_abort_result TOI_WOULD_EAT_MEMORY s1
        else
          case (if image_size_limit s1 = - 2 then free_caches_only E s1
                else (amount_wanted, False, s1)) of
            (amount_wanted2, did_eat_memory2, s2) \<Rightarrow>
              case (if amount_wanted2 > 0 \<and> \<not> test_result_state TOI_ABORTED s2
                       \<and> image_size_limit s2 \<noteq> - 1
                    then reclaim_memory E (amount_wanted2, did_eat_memory2, s2)
                    else (amount_wanted2, did_eat_memory2, s2)) of
                (amount_wanted3, did_eat_memory3, s3) \<Rightarrow>
                  log_event Update_status
                    (if did_eat_memory3 then suspend_recalculate_image_contents E False s3
                     else s3))"

text \<open>
  \<^verbatim>\<open>MIN_EXTRA_PAGES_ALLOWANCE\<close> is a constant of \<^verbatim>\<open>prepare_image.h\<close>, which is not among
  the sources; it is a parameter here.
\<close>

definition get_extra_pd1_allowance :: "env \<Rightarrow> int \<Rightarrow> toi \<Rightarrow> toi" where
  "get_extra_pd1_allowance E MIN_EXTRA_PAGES_ALLOWANCE s =
     (let orig_num_free = real_nr_free_pages all_zones_mask s;
          s1 = log_event (Prepare_status ''Finding allowance for drivers.'') s;
          s2 = call Device_suspend (device_suspend_and_power_down E) s1;
          final = real_nr_free_pages all_zones_mask s2;
          s3 = call Device_resume (device_power_up_and_resume E) s2
      in s3\<lparr>extra_pd1_pages_allowance :=
               max (orig_num_free - final + MIN_EXTRA_PAGES_ALLOWANCE) MIN_EXTRA_PAGES_ALLOWANCE\<rparr>)"

text \<open>
  Modelled from the spec: \<^verbatim>\<open>abort_suspend\<close> is not among the sources. Every abort reason is
  recorded in the result state with the umbrella flag set alongside it, and the reason is
  reported.
\<close>

definition abort_suspend :: "result_state \<Rightarrow> string \<Rightarrow> toi \<Rightarrow> toi" where
  "abort_suspend reason msg s = log_event (Abort_suspend reason msg) (set_abort_result reason s)"

definition MAX_TRIES :: int where
  "MAX_TRIES = 2"

text \<open>
  The \<^verbatim>\<open>do ... while\<close> loop of \<^verbatim>\<open>suspend_prepare_image\<close>, entered with the given value
  of \<^verbatim>\<open>tries\<close>.
\<close>

function prepare_loop :: "env \<Rightarrow> nat \<Rightarrow> int \<Rightarrow> toi \<Rightarrow> toi" where
  "prepare_loop E MAX_ORDER tries s =
     (let s1 = eat_memory E (log_event (Prepare_status ''Preparing Image. Try'') s) in
        if test_result_state TOI_ABORTED s1 then s1
        else
          case image_not_ready True (update_image E MAX_ORDER s1) of
            (again, s2) \<Rightarrow>
              if again \<and> tries + 1 \<le> MAX_TRIES \<and> \<not> test_result_state TOI_ABORTED s2
              then prepare_loop E MAX_ORDER (tries + 1) s2 else s2)"
  by pat_completeness auto
termination
  by (relation "measure (\<lambda>(E, m, tries, s). nat (MAX_TRIES + 1 - tries))") auto

declare prepare_loop.simps [simp del]

text \<open>
  \<^verbatim>\<open>suspend_prepare_image\<close> in three parts: the steps before the loop, which return 1
  when the freeze fails or no storage is available and 0 otherwise; the loop; and the
  steps after the loop.
\<close>

definition prepare_start :: "env \<Rightarrow> int \<Rightarrow> toi \<Rightarrow> int \<times> toi" where
  "prepare_start E MIN_EXTRA_PAGES_ALLOWANCE s =
     (case attempt_to_freeze E (s\<lparr>header_space_allocated := 0, main_storage_allocated := 0\<rparr>) of
        (failed, s1) \<Rightarrow>
          if failed \<noteq> 0 then (1, s1)
          else
            let s2 = (if extra_pd1_pages_allowance s1 = 0
                      then get_extra_pd1_allowance E MIN_EXTRA_PAGES_ALLOWANCE s1 else s1);
                s3 = log_event Storage_available
                       (s2\<lparr>storage_available := allocator_storage_available E (world s2)\<rparr>)
            in if storage_available s3 = 0
               then (1, set_abort_result TOI_NOSTORAGE_AVAILABLE
                          (log_event (Message ''You need some storage available to be able to suspend.'') s3))
               else (0, s3))"

definition finish_prepare :: "env \<Rightarrow> toi \<Rightarrow> int \<times> toi" where
  "finish_prepare E s =
     (case image_not_ready False s of
        (result, s1) \<Rightarrow>
          if \<not> test_result_state TOI_ABORTED s1
          then
            if result
            then (1, abort_suspend TOI_UNABLE_TO_PREPARE_IMAGE
                       ''Unable to successfully prepare the image.''
                       (display_stats True False s1))
            else (0, log_event Cond_pause (call Unlink_lru_lists (unlink_lru_lists E) s1))
          else (if result then 1 else 0, s1))"

definition suspend_prepare_image :: "env \<Rightarrow> nat \<Rightarrow> int \<Rightarrow> toi \<Rightarrow> int \<times> toi" where
  "suspend_prepare_image E MAX_ORDER MIN_EXTRA_PAGES_ALLOWANCE s =
     (case prepare_start E MIN_EXTRA_PAGES_ALLOWANCE s of
        (early, s3) \<Rightarrow>
          if early \<noteq> 0 then (1, s3)
          else finish_prepare E (prepare_loop E MAX_ORDER 1 s3))"

section \<open>The atomic copy\<close>

text \<open>
  Modelled from the spec: \<^verbatim>\<open>get_next_bit_on\<close> is not among the sources. The spec gives a
  bitmap an iteration over its set page frames, finite and in order of the page frame
  numbers, and the comment in \<^verbatim>\<open>pagedir.c\<close> gives the protocol of the counter:
  \<^verbatim>\<open>max_pfn + 1\<close> asks for the first set bit, a page frame number asks for the next set
  bit after it, and a result above \<^verbatim>\<open>max_pfn\<close> says there is none.
\<close>

definition get_next_bit_on :: "nat \<Rightarrow> (nat \<Rightarrow> bool) \<Rightarrow> nat \<Rightarrow> nat" where
  "get_next_bit_on maxp bitmap counter =
     (case find bitmap [(if counter = maxp + 1 then 0 else counter + 1) ..< maxp + 1] of
        Some pfn \<Rightarrow> pfn
      | None \<Rightarrow> maxp + 1)"

text \<open>
  The inner loop \<^verbatim>\<open>while (loop >= 0) { *(copyvirt + loop) = *(origvirt + loop); loop--; }\<close>
  on the memory itself, so that a page copied onto itself is read as it is written.
  Whether a page is reached by \<^verbatim>\<open>kmap_atomic\<close> or by \<^verbatim>\<open>page_address\<close> does not change
  what is read or written and is not modelled.
\<close>

function copy_words :: "int \<Rightarrow> nat \<Rightarrow> nat \<Rightarrow> (nat \<Rightarrow> nat \<Rightarrow> nat) \<Rightarrow> (nat \<Rightarrow> nat \<Rightarrow> nat)" where
  "copy_words loop origpage copypage m =
     (if 0 \<le> loop
      then copy_words (loop - 1) origpage copypage
             (m(copypage := (m copypage)(nat loop := m origpage (nat loop))))
      else m)"
  by pat_completeness auto
termination
  by (relation "measure (\<lambda>(loop, a, b, m). nat (loop + 1))") auto

declare copy_words.simps [simp del]

definition words_per_page :: "world \<Rightarrow> int" where
  "words_per_page w = c_div (PAGE_SIZE w) (sizeof_unsigned_long w)"

text \<open>
  The loop \<^verbatim>\<open>for (i = 0; i < pagedir1.size; i++)\<close> of \<^verbatim>\<open>suspend_copy_pageset1\<close>, from the
  index \<open>i\<close> on; \<open>n\<close> is \<^verbatim>\<open>pagedir1.size\<close>, which the loop does not change. Each copy of a
  page is recorded among the requests.
\<close>

function copy_pages :: "int \<Rightarrow> int \<Rightarrow> nat \<Rightarrow> nat \<Rightarrow> toi \<Rightarrow> toi" where
  "copy_pages n i source_index dest_index s =
     (if i < n then
        let s1 = log_event (Copy_page source_index dest_index)
                   (s\<lparr>memory := copy_words (words_per_page (world s) - 1)
                                    source_index dest_index (memory s)\<rparr>)
        in copy_pages n (i + 1)
             (get_next_bit_on (max_pfn (world s1)) (pageset1_map s1) source_index)
             (get_next_bit_on (max_pfn (world s1)) (pageset1_copy_map s1) dest_index) s1
      else s)"
  by pat_completeness auto
termination
  by (relation "measure (\<lambda>(n, i, a, b, s). nat (n - i))") auto

declare copy_pages.simps [simp del]

definition suspend_copy_pageset1 :: "toi \<Rightarrow> toi" where
  "suspend_copy_pageset1 s =
     copy_pages (pagedir1_size s) 0
       (get_next_bit_on (max_pfn (world s)) (pageset1_map s) (max_pfn (world s) + 1))
       (get_next_bit_on (max_pfn (world s)) (pageset1_copy_map s) (max_pfn (world s) + 1)) s"

text \<open>\<^verbatim>\<open>__suspend_post_context_save\<close> returns -1 or 0.\<close>

definition suspend_post_context_save :: "env \<Rightarrow> toi \<Rightarrow> int \<times> toi" where
  "suspend_post_context_save E s =
     (let old_ps1_size = pagedir1_size s;
          s1 = log_event Calculate_check_checksums (calculate_check_checksums E s);
          s2 = call Free_checksum_pages (free_checksum_pages E) s1;
          s3 = suspend_recalculate_image_contents E True s2;
          s4 = s3\<lparr>extra_pd1_pages_used := pagedir1_size s3 - old_ps1_size\<rparr>
      in if extra_pd1_pages_used s4 > extra_pd1_pages_allowance s4
         then (- 1, set_abort_result TOI_EXTRA_PAGES_ALLOW_TOO_SMALL
                      (log_event (Message ''Pageset1 has grown'') s4))
         else if \<not> test_action_state TOI_TEST_FILTER_SPEED s4 \<and> \<not> test_action_state TOI_TEST_BIO s4
         then (0, suspend_copy_pageset1 s4)
         else (0, s4))"

text \<open>
  The set page frames of a bitmap in order, and the page frame the walk of
  \<^verbatim>\<open>get_next_bit_on\<close> is at after \<open>i\<close> steps.
\<close>

definition set_pfns :: "nat \<Rightarrow> (nat \<Rightarrow> bool) \<Rightarrow> nat list" where
  "set_pfns maxp bitmap = filter bitmap [0 ..< maxp + 1]"

definition nth_set_pfn :: "nat \<Rightarrow> (nat \<Rightarrow> bool) \<Rightarrow> nat \<Rightarrow> nat" where
  "nth_set_pfn maxp bitmap i =
     (if i < length (set_pfns maxp bitmap) then set_pfns maxp bitmap ! i else maxp + 1)"

text \<open>
  What copying one page does to the memory, as the specification has it: the words of the
  destination page below the number of words of a page become those of the source page.
\<close>

definition copy_page :: "nat \<Rightarrow> nat \<times> nat \<Rightarrow> (nat \<Rightarrow> nat \<Rightarrow> nat) \<Rightarrow> (nat \<Rightarrow> nat \<Rightarrow> nat)" where
  "copy_page k ab m = (case ab of (a, b) \<Rightarrow> m(b := (\<lambda>w. if w < k then m a w else m b w)))"

section \<open>The non-conflicting page allocator\<close>

text \<open>
  A pointer to a page as a word of memory: 0 is \<^verbatim>\<open>NULL\<close>, and the page with page frame
  number \<open>pfn\<close> is \<open>pfn + 1\<close>.
\<close>

definition page_ptr :: "nat option \<Rightarrow> nat" where
  "page_ptr page = (case page of None \<Rightarrow> 0 | Some pfn \<Rightarrow> Suc pfn)"

definition ptr_page :: "nat \<Rightarrow> nat option" where
  "ptr_page a = (if a = 0 then None else Some (a - 1))"

text \<open>
  The session at resume: the variables of the engine, the flag
  \<^verbatim>\<open>SUSPEND_LOADING_ALT_IMAGE\<close> of the suspend state, whether the pointer \<^verbatim>\<open>pageset2_map\<close> is
  set, the cursor \<^verbatim>\<open>ps2_pfn\<close> and the head \<^verbatim>\<open>first_conflicting_page\<close> of \<^verbatim>\<open>pagedir.c\<close>, and
  the pool of pages the kernel's allocator can hand out. \<^verbatim>\<open>ps2_pfn\<close> is an \<^verbatim>\<open>int\<close> in the
  source and is compared with the \<^verbatim>\<open>unsigned long\<close> \<^verbatim>\<open>max_pfn\<close>; both are natural numbers
  here.
\<close>

record resume = toi +
  loading_alt_image :: bool
  pageset2_map_allocated :: bool
  ps2_pfn :: nat
  first_conflicting_page :: "nat option"
  free_pages :: "nat list"

text \<open>
  Modelled from the spec: \<^verbatim>\<open>alloc_pages\<close> and \<^verbatim>\<open>__free_page\<close> are not among the sources.
  The spec speaks of fresh allocation, of a page that stays allocated, and of freeing a
  page so that it may be handed out again. \<^verbatim>\<open>alloc_pages(flags, 0)\<close> takes from the pool
  the first page that the flags allow, which is any page when \<^verbatim>\<open>__GFP_HIGHMEM\<close> is among
  them and a page out of high memory otherwise, and returns \<^verbatim>\<open>NULL\<close> when there is none;
  \<^verbatim>\<open>__free_page\<close> puts a page back. The order of the pool is arbitrary, so that the page
  chosen is.
\<close>

definition alloc_pages :: "bool \<Rightarrow> resume \<Rightarrow> nat option \<times> resume" where
  "alloc_pages gfp_highmem s =
     (case find (\<lambda>p. gfp_highmem \<or> \<not> PageHighMem (world s) p) (free_pages s) of
        None \<Rightarrow> (None, s)
      | Some p \<Rightarrow> (Some p, s\<lparr>free_pages := removeAll p (free_pages s)\<rparr>))"

definition free_page :: "nat \<Rightarrow> resume \<Rightarrow> resume" where
  "free_page p s = s\<lparr>free_pages := p # free_pages s\<rparr>"

text \<open>
  \<^verbatim>\<open>free_conflicting_pages\<close> follows the pointers kept in the first word of each page, and
  need not return if they run in a circle.
\<close>

partial_function (option) free_conflicting_pages :: "resume \<Rightarrow> resume option" where
  "free_conflicting_pages s =
     (case first_conflicting_page s of
        None \<Rightarrow> Some s
      | Some page \<Rightarrow>
          let next = ptr_page (memory s page 0);
              s1 = free_page page s
          in free_conflicting_pages (s1\<lparr>first_conflicting_page := next\<rparr>))"

text \<open>
  The loop \<^verbatim>\<open>do { ... } while (ps2_pfn < max_pfn)\<close> of \<^verbatim>\<open>___suspend_get_nonconflicting_page\<close>
  that looks for a page of pageset2 to use again; it returns the page found, or nothing when
  the loop ends. \<^verbatim>\<open>PagePageset1\<close> tests the bit of the page in \<^verbatim>\<open>pageset1_map\<close>.
\<close>

function recycle_loop :: "bool \<Rightarrow> resume \<Rightarrow> nat option \<times> resume" where
  "recycle_loop can_be_highmem s =
     (let s1 = s\<lparr>ps2_pfn := get_next_bit_on (max_pfn (world s)) (pageset2_map s) (ps2_pfn s)\<rparr>
      in if ps2_pfn s1 \<le> max_pfn (world s1)
         then if \<not> pageset1_map s1 (ps2_pfn s1) \<and>
                 (can_be_highmem \<or> \<not> PageHighMem (world s1) (ps2_pfn s1))
              then (Some (ps2_pfn s1), s1)
              else if ps2_pfn s1 < max_pfn (world s1) then recycle_loop can_be_highmem s1
              else (None, s1)
         else let s2 = s1\<lparr>ps2_pfn := ps2_pfn s1 + 1\<rparr>
              in if ps2_pfn s2 < max_pfn (world s2) then recycle_loop can_be_highmem s2
                 else (None, s2))"
  by pat_completeness auto
termination
proof (relation "measure (\<lambda>(h, s). if ps2_pfn s = max_pfn (world s) + 1
                                     then max_pfn (world s) + 3
                                     else max_pfn (world s) + 2 - ps2_pfn s)")
  show "wf (measure (\<lambda>(h, s). if ps2_pfn s = max_pfn (world s) + 1
                                     then max_pfn (world s) + 3
                                     else max_pfn (world s) + 2 - ps2_pfn s))"
    by simp
next
  fix can_be_highmem :: bool and s x :: resume
  assume x: "x = s\<lparr>ps2_pfn := get_next_bit_on (max_pfn (world s)) (pageset2_map s) (ps2_pfn s)\<rparr>"
    and le: "ps2_pfn x \<le> max_pfn (world x)"
  have mem: "find P ps = Some p \<Longrightarrow> p \<in> set ps" for P :: "nat \<Rightarrow> bool" and ps p
    by (induction ps) (auto split: if_splits)
  have "ps2_pfn s \<noteq> max_pfn (world s) + 1 \<Longrightarrow> ps2_pfn s < ps2_pfn x"
    using le unfolding x get_next_bit_on_def
    by (auto split: option.splits dest!: mem simp del: upt_Suc)
  then show "((can_be_highmem, x), (can_be_highmem, s))
       \<in> measure (\<lambda>(h, s). if ps2_pfn s = max_pfn (world s) + 1
                                     then max_pfn (world s) + 3
                                     else max_pfn (world s) + 2 - ps2_pfn s)"
    using le by (auto simp: x)
next
  fix can_be_highmem :: bool and s x xa :: resume
  assume "x = s\<lparr>ps2_pfn := get_next_bit_on (max_pfn (world s)) (pageset2_map s) (ps2_pfn s)\<rparr>"
    and "\<not> ps2_pfn x \<le> max_pfn (world x)"
    and "xa = x\<lparr>ps2_pfn := ps2_pfn x + 1\<rparr>"
    and "ps2_pfn xa < max_pfn (world xa)"
  then show "((can_be_highmem, xa), (can_be_highmem, s))
       \<in> measure (\<lambda>(h, s). if ps2_pfn s = max_pfn (world s) + 1
                                     then max_pfn (world s) + 3
                                     else max_pfn (world s) + 2 - ps2_pfn s)"
    by simp
qed

text \<open>
  The loop \<^verbatim>\<open>do { page = alloc_pages(flags, 0); ... } while (PagePageset1(page))\<close>. A page
  of pageset1 gets the head of the list of conflicting pages written to its first word and
  becomes the head.
\<close>

function fresh_loop :: "bool \<Rightarrow> resume \<Rightarrow> nat option \<times> resume" where
  "fresh_loop can_be_highmem s =
     (case alloc_pages can_be_highmem s of
        (None, s1) \<Rightarrow>
          (None, s1\<lparr>events := events s1 @ [Message ''Failed to get nonconflicting page.'']\<rparr>)
      | (Some page, s1) \<Rightarrow>
          if pageset1_map s1 page
          then fresh_loop can_be_highmem
                 (s1\<lparr>memory := (memory s1)
                         (page := (memory s1 page)(0 := page_ptr (first_conflicting_page s1))),
                     first_conflicting_page := Some page\<rparr>)
          else (Some page, s1))"
  by pat_completeness auto
termination
proof (relation "measure (\<lambda>(h, s). length (free_pages s))")
  show "wf (measure (\<lambda>(h, s). length (free_pages s)))" by simp
next
  fix can_be_highmem :: bool and s y :: resume and x :: "nat option" and page :: nat
  assume "(x, y) = alloc_pages can_be_highmem s" and "x = Some page"
  then have "length (free_pages y) < length (free_pages s)"
    unfolding alloc_pages_def
    by (auto split: option.splits simp: find_Some_iff length_removeAll_less)
  then show "((can_be_highmem,
         y\<lparr>memory := (memory y)(page := (memory y page)(0 := page_ptr (first_conflicting_page y))),
            first_conflicting_page := Some page\<rparr>), can_be_highmem, s)
       \<in> measure (\<lambda>(h, s). length (free_pages s))"
    by simp
qed

declare recycle_loop.simps [simp del]
declare fresh_loop.simps [simp del]

text \<open>\<^verbatim>\<open>___suspend_get_nonconflicting_page(can_be_highmem)\<close>.\<close>

definition suspend_get_nonconflicting_page :: "bool \<Rightarrow> resume \<Rightarrow> nat option \<times> resume" where
  "suspend_get_nonconflicting_page can_be_highmem s =
     (if loading_alt_image s \<and> pageset2_map_allocated s \<and> ps2_pfn s < max_pfn (world s) + 2
      then case recycle_loop can_be_highmem s of
             (Some page, s1) \<Rightarrow> (Some page, s1)
           | (None, s1) \<Rightarrow> fresh_loop can_be_highmem s1
      else fresh_loop can_be_highmem s)"

text \<open>
  \<open>is_chain m first ps\<close>: following the pointers in the first words of the pages from
  \<open>first\<close> visits the pages \<open>ps\<close> in this order and then reaches \<^verbatim>\<open>NULL\<close>. \<open>chained s ps\<close>:
  the list of conflicting pages of the session is \<open>ps\<close>, without repetition, and none of
  its pages is in the pool.
\<close>

fun is_chain :: "(nat \<Rightarrow> nat \<Rightarrow> nat) \<Rightarrow> nat option \<Rightarrow> nat list \<Rightarrow> bool" where
  "is_chain m None ps = (ps = [])"
| "is_chain m (Some p) [] = False"
| "is_chain m (Some p) (q # qs) = (p = q \<and> is_chain m (ptr_page (m p 0)) qs)"


definition chained :: "resume \<Rightarrow> nat list \<Rightarrow> bool" where
  "chained s ps \<longleftrightarrow>
     is_chain (memory s) (first_conflicting_page s) ps \<and> distinct ps \<and>
     list_all (\<lambda>p. p \<notin> set (free_pages s)) ps"

section \<open>Reading the requests made\<close>

text \<open>
  The requests a recalculation of the image contents may make; the requests that reclaim
  memory; and the requests that the steps inside the loop of \<open>suspend_prepare_image\<close> and
  before it may make, which are all but the status line of a new try, the statistics
  printed on failure, the abort report and the unlinking of the LRU lists.
\<close>

fun recalc_event :: "event \<Rightarrow> bool" where
  "recalc_event Kmalloc = True"
| "recalc_event (Message m) = True"
| "recalc_event Storage_available = True"
| "recalc_event (Display_stats always) = (\<not> always)"
| "recalc_event e = False"


fun inner_event :: "event \<Rightarrow> bool" where
  "inner_event Unlink_lru_lists = False"
| "inner_event (Abort_suspend r m) = False"
| "inner_event (Display_stats always) = (\<not> always)"
| "inner_event (Prepare_status m) = (m \<noteq> ''Preparing Image. Try'')"
| "inner_event e = True"

text \<open>
  \<open>extends P s s'\<close>: the session \<open>s'\<close> has the requests of \<open>s\<close> followed by requests that
  all satisfy \<open>P\<close>, and the same image size limit. \<open>new_events s s'\<close> are the requests
  that follow.
\<close>

definition new_events :: "toi \<Rightarrow> toi \<Rightarrow> event list" where
  "new_events s s' = drop (length (events s)) (events s')"

definition extends :: "(event \<Rightarrow> bool) \<Rightarrow> toi \<Rightarrow> toi \<Rightarrow> bool" where
  "extends P s s' \<longleftrightarrow>
     image_size_limit s' = image_size_limit s \<and>
     take (length (events s)) (events s') = events s \<and>
     list_all P (new_events s s')"

text \<open>
  The status line that opens a round of the loop of \<open>suspend_prepare_image\<close>, the number
  of times it was written between two sessions, and the requests of the loop.
\<close>

definition try_event :: event where
  "try_event = Prepare_status ''Preparing Image. Try''"

definition tries_logged :: "toi \<Rightarrow> toi \<Rightarrow> nat" where
  "tries_logged s s' = length (filter (\<lambda>e. e = try_event) (new_events s s'))"

definition loop_event :: "event \<Rightarrow> bool" where
  "loop_event e = (inner_event e \<or> e = try_event)"

text \<open>A world at rest: every collaborator succeeds and changes nothing.\<close>

definition idle_env :: env where
  "idle_env =
     \<lparr>allocator_storage_available = (\<lambda>w. 100000),
      allocator_allocate_storage = (\<lambda>n w. w),
      allocator_storage_allocated = (\<lambda>w. 100000),
      allocator_allocate_header_space = (\<lambda>n w. (0, w)),
      freeze_processes = (\<lambda>w. (0, w)),
      thaw_processes = (\<lambda>w. w),
      thaw_kernel_threads = (\<lambda>w. w),
      drop_pagecache = (\<lambda>w. w),
      shrink_one_zone = (\<lambda>pos n w. w),
      allocate_checksum_pages = (\<lambda>w. w),
      calculate_check_checksums = (\<lambda>s. s),
      free_checksum_pages = (\<lambda>w. w),
      kmalloc = (\<lambda>w. (True, w)),
      get_free_pages = (\<lambda>order w. (None, w)),
      device_suspend_and_power_down = (\<lambda>w. w),
      device_power_up_and_resume = (\<lambda>w. w),
      unlink_lru_lists = (\<lambda>w. w)\<rparr>"

text \<open>The requests that copy a page.\<close>

fun copy_event :: "event \<Rightarrow> bool" where
  "copy_event (Copy_page a b) = True"
| "copy_event e = False"

section \<open>The derived quantities as the specification writes them\<close>

text \<open>
  The four quantities of step 3 of the negotiator, following the words of the
  specification: \<open>ceil\<close> is the ceiling of the exact quotient.
\<close>

definition ceil_half :: "int \<Rightarrow> int" where
  "ceil_half x = \<lceil>real_of_int x / 2\<rceil>"












subsection \<open>What a pass counts\<close>

text \<open>
  The test \<^verbatim>\<open>!page || PageNosave(page)\<close> of the loop, where \<^verbatim>\<open>page\<close> is what
  \<^verbatim>\<open>saveable_highmem_page\<close> or \<^verbatim>\<open>saveable_page\<close> returned.
\<close>

definition page_excluded :: "toi \<Rightarrow> zone \<Rightarrow> nat \<Rightarrow> bool" where
  "page_excluded s z p =
     (\<not> (if is_highmem z then saveable_highmem_page (world s) p else saveable_page (world s) p)
      \<or> nosave_map s p)"

text \<open>
  The branch of the loop a page frame of the zone \<open>z\<close> takes, read off the maps of \<open>s\<close>;
  and what each branch adds to \<open>num_free\<close>, \<open>num_nosave\<close>, \<open>pagedir1.size\<close> and
  \<open>pagedir2.size\<close>, in this order.
\<close>

datatype page_class = Invalid | Free | Nosave | Pageset1 | Pageset2 | Pageset2_resaved

definition classify :: "toi \<Rightarrow> zone \<Rightarrow> nat \<Rightarrow> page_class" where
  "classify s z p =
     (if \<not> pfn_valid (world s) p then Invalid
      else if free_map s p then Free
      else if page_excluded s z p then Nosave
      else if pageset2_map s p then (if resave_map s p then Pageset2_resaved else Pageset2)
      else Pageset1)"

type_synonym tally = "int \<times> int \<times> int \<times> int"

definition add4 :: "tally \<Rightarrow> tally \<Rightarrow> tally" where
  "add4 a b =
     (case a of (a1, a2, a3, a4) \<Rightarrow> case b of (b1, b2, b3, b4) \<Rightarrow>
        (a1 + b1, a2 + b2, a3 + b3, a4 + b4))"

fun class_tally :: "page_class \<Rightarrow> tally" where
  "class_tally Invalid = (0, 0, 0, 0)"
| "class_tally Free = (1, 0, 0, 0)"
| "class_tally Nosave = (0, 1, 0, 0)"
| "class_tally Pageset1 = (0, 0, 1, 0)"
| "class_tally Pageset2 = (0, 0, 0, 1)"
| "class_tally Pageset2_resaved = (0, 0, 1, 1)"

definition pages_tally :: "toi \<Rightarrow> zone \<Rightarrow> nat list \<Rightarrow> tally" where
  "pages_tally s z ps = foldr (\<lambda>p. add4 (class_tally (classify s z p))) ps (0, 0, 0, 0)"

definition tally_of :: "toi \<Rightarrow> tally" where
  "tally_of s = (num_free s, num_nosave s, pagedir1_size s, pagedir2_size s)"

definition same_inputs :: "toi \<Rightarrow> toi \<Rightarrow> bool" where
  "same_inputs s s' \<longleftrightarrow>
     world s' = world s \<and> free_map s' = free_map s \<and> nosave_map s' = nosave_map s \<and>
     pageset2_map s' = pageset2_map s \<and> resave_map s' = resave_map s"

text \<open>The page frames the pass visits: the span of every populated zone, zone by zone.\<close>

definition zone_span :: "zone \<Rightarrow> nat list" where
  "zone_span z = [zone_start_pfn z ..< zone_start_pfn z + spanned_pages z]"

definition scanned :: "world \<Rightarrow> (zone \<times> nat) list" where
  "scanned w = concat (map (\<lambda>z. map (Pair z) (zone_span z)) (filter populated_zone (zones w)))"

definition scan_tally :: "toi \<Rightarrow> (zone \<times> nat) list \<Rightarrow> tally" where
  "scan_tally s zps = foldr (\<lambda>(z, p). add4 (class_tally (classify s z p))) zps (0, 0, 0, 0)"

definition count_class :: "toi \<Rightarrow> page_class \<Rightarrow> (zone \<times> nat) list \<Rightarrow> int" where
  "count_class s c zps = int (length (filter (\<lambda>(z, p). classify s z p = c) zps))"

subsection \<open>Small page spaces\<close>

text \<open>
  A populated low-memory zone with nothing on its free lists; a world of such zones in
  which every page frame is valid and saveable; and a session over it with the given
  nosave, pageset2 and resave maps and every counter at 0.
\<close>

definition simple_zone :: "nat \<Rightarrow> nat \<Rightarrow> zone" where
  "simple_zone start n =
     \<lparr>zone_start_pfn = start, spanned_pages = n, populated_zone = True, is_highmem = False,
      zone_idx = 0, free_area = [], pcp = [], nr_free_pages = 0, nr_inactive = 0,
      inactive_list = [], nr_active = 0, active_list = []\<rparr>"

definition simple_world :: "zone list \<Rightarrow> nat \<Rightarrow> world" where
  "simple_world zs maxp =
     \<lparr>zones = zs, tasks = [], pfn_valid = (\<lambda>_. True), saveable_page = (\<lambda>_. True),
      saveable_highmem_page = (\<lambda>_. True), PageHighMem = (\<lambda>_. False), max_pfn = maxp,
      ZONE_HIGHMEM = 2, MAX_NR_ZONES = 3, MIN_FREE_RAM = 0, PAGE_SIZE = 4096,
      sizeof_unsigned_long = 4, sizeof_suspend_header = 0, suspend_header_storage_for_modules = 0,
      suspend_pageflags_space_needed = 0, suspend_memory_for_modules = 0,
      suspend_expected_compression_ratio = 100, opaque = 0\<rparr>"

definition simple_toi :: "world \<Rightarrow> (nat \<Rightarrow> bool) \<Rightarrow> (nat \<Rightarrow> bool) \<Rightarrow> (nat \<Rightarrow> bool) \<Rightarrow> toi" where
  "simple_toi w nosave ps2 resave =
     \<lparr>pagedir1_size = 0, pagedir1_highmem = 0, pagedir2_size = 0, pagedir2_highmem = 0,
      num_nosave = 0, num_free = 0, header_space_allocated = 0, main_storage_allocated = 0,
      storage_available = 0, extra_pd1_pages_allowance = 0, extra_pd1_pages_used = 0,
      image_size_limit = 0, extra_pages_allocated = 0, extras_list = [], toi_result = {}, toi_action = {},
      nosave_map = nosave, free_map = (\<lambda>_. False), pageset1_map = (\<lambda>_. False),
      pageset1_copy_map = (\<lambda>_. False), pageset2_map = ps2, resave_map = resave,
      memory = (\<lambda>_ _. 0), world = w, events = []\<rparr>"

text \<open>
  A zone of six page frames of which the last two form a free block, in a session where
  page frame 0 is nosave, 1 and 2 are pageset2, and 2 is flagged for resaving.
\<close>

definition mixed_zone :: zone where
  "mixed_zone = (simple_zone 0 6)\<lparr>free_area := [(4, 1)]\<rparr>"

definition mixed_toi :: toi where
  "mixed_toi = simple_toi (simple_world [mixed_zone] 5) (\<lambda>p. p = 0) (\<lambda>p. p = 1 \<or> p = 2) (\<lambda>p. p = 2)"

text \<open>
  The scenario of 1000 page frames: 50 nosave, 300 pageset2 of which 10 are flagged for
  resaving, 650 neither.
\<close>

definition scenario_toi :: toi where
  "scenario_toi =
     simple_toi (simple_world [simple_zone 0 1000] 999)
       (\<lambda>p. p < 50) (\<lambda>p. 50 \<le> p \<and> p < 350) (\<lambda>p. 50 \<le> p \<and> p < 60)"

text \<open>
  A session over an empty page space with an allowance of one page; the same with the
  policy of eating no memory; and a session whose counters show 300 pageset1 pages and
  724 free pages under an image size limit of 1 MB, with storage in plenty.
\<close>

definition bare_toi :: toi where
  "bare_toi = (simple_toi (simple_world [] 0) (\<lambda>_. False) (\<lambda>_. False) (\<lambda>_. False))
                \<lparr>extra_pd1_pages_allowance := 1\<rparr>"




definition capped_zone :: zone where
  "capped_zone =
     (simple_zone 0 1024)\<lparr>free_area := [(300, 2), (304, 4), (320, 6), (384, 7), (512, 9)],
                           nr_free_pages := 724\<rparr>"

definition capped_toi :: toi where
  "capped_toi =
     (simple_toi (simple_world [capped_zone] 1023) (\<lambda>_. False) (\<lambda>_. False) (\<lambda>_. False))
       \<lparr>pagedir1_size := 300, image_size_limit := 1, storage_available := 100000,
        main_storage_allocated := 100000\<rparr>"

text \<open>
  A session over eight page frames with pages of four words: page frames 1, 3 and 4 are
  pageset1, page frames 2, 5, 6 and 7 are set aside for the copy, and word \<open>w\<close> of page
  frame \<open>p\<close> holds \<open>10 * p + w\<close>.
\<close>

definition copy_toi :: toi where
  "copy_toi =
     (simple_toi ((simple_world [simple_zone 0 8] 7)\<lparr>PAGE_SIZE := 16\<rparr>)
        (\<lambda>_. False) (\<lambda>_. False) (\<lambda>_. False))
       \<lparr>pagedir1_size := 3,
        pageset1_map := (\<lambda>p. p = 1 \<or> p = 3 \<or> p = 4),
        pageset1_copy_map := (\<lambda>p. p = 2 \<or> p = 5 \<or> p = 6 \<or> p = 7),
        memory := (\<lambda>p w. 10 * p + w)\<rparr>"

text \<open>
  A session at resume over the same eight page frames: page frames 3 and 5 are pageset1,
  3 and 4 are pageset2, 6 and 7 are high memory, the cursor is at its start, no page is
  on the list of conflicting pages, and the pool holds the page frames 6, 3, 5, 2 and 4.
\<close>

definition alloc_resume :: resume where
  "alloc_resume =
     toi.extend
       (copy_toi\<lparr>pageset1_map := (\<lambda>p. p = 3 \<or> p = 5), pageset2_map := (\<lambda>p. p = 3 \<or> p = 4),
                 world := (world copy_toi)\<lparr>PageHighMem := (\<lambda>p. 6 \<le> p)\<rparr>\<rparr>)
       (resume.fields False True 8 None [6, 3, 5, 2, 4])"

section \<open>Properties of the swap signature\<close>

lemma length_le_bytes [simp]: "length (le_bytes w n) = n"
  by (simp add: le_bytes_def)

lemma load32_store_le:
  "4 \<le> n \<Longrightarrow> load32 (store_bytes m off (le_bytes (w::'a::len word) n)) off = ucast w"
  apply (rule bit_eqI)
  apply (auto simp: load32_def store_bytes_def le_bytes_def bit_simps)
  subgoal for k by (cases "k < 24") auto
  done

lemma load32_frame:
  "off + 4 \<le> off' \<or> off' + length bs \<le> off \<Longrightarrow> load32 (store_bytes m off' bs) off = load32 m off"
  by (auto simp: load32_def store_bytes_def)

lemma unat_small_not_bit:
  assumes "unat (b :: 'l::len word) < 2 ^ 31" and "31 \<le> n"
  shows "\<not> bit b n"
proof -
  have "(2::nat) ^ 31 \<le> 2 ^ n" using assms(2) by (intro power_increasing) auto
  with assms(1) have "unat b < 2 ^ n" by linarith
  then have "unat b div 2 ^ n = 0" by simp
  then have "\<not> bit (unat b) n" by (simp add: bit_iff_odd)
  then show ?thesis by (simp add: bit_unsigned_iff)
qed

lemma ffs_small: "unat (b :: 'l::len word) < 2 ^ 31 \<Longrightarrow> ffs (ucast b) \<le> 31"
proof -
  assume b: "unat b < 2 ^ 31"
  show ?thesis
  proof (cases "find (bit (ucast b :: 32 word)) [0..<32]")
    case None
    then show ?thesis by (simp add: ffs_def)
  next
    case (Some n)
    then have "bit (ucast b :: 32 word) n" and "n < 32"
      by (auto simp: find_Some_iff)
    then have "bit b n" by (simp add: bit_simps)
    with unat_small_not_bit [OF b, of n] have "n < 31" by (cases "n < 31") auto
    with Some show ?thesis by (simp add: ffs_def)
  qed
qed

lemma ucast32_id:
  assumes "unat (b :: 'l::len word) < 2 ^ 31"
  shows "(ucast (ucast b :: 32 word) :: 'l word) = b"
proof (rule bit_eqI)
  fix n
  show "bit (ucast (ucast b :: 32 word) :: 'l word) n = bit b n"
    using unat_small_not_bit [OF assms, of n]
    by (cases "n < 31") (auto simp: bit_simps dest: bit_imp_le_length)
qed

lemma memcmp_SWAP_SPACE:
  "memcmp_eq ''SWAP-SPACE'' h 10 \<longleftrightarrow>
     h 0 = 83 \<and> h 1 = 87 \<and> h 2 = 65 \<and> h 3 = 80 \<and> h 4 = 45 \<and> h 5 = 83 \<and> h 6 = 80 \<and> h 7 = 65 \<and> h 8 = 67 \<and> h 9 = 69"
  by (simp add: memcmp_eq_def char_bytes_def upt_rec eval_nat_numeral)

lemma memcmp_SWAPSPACE2:
  "memcmp_eq ''SWAPSPACE2'' h 10 \<longleftrightarrow>
     h 0 = 83 \<and> h 1 = 87 \<and> h 2 = 65 \<and> h 3 = 80 \<and> h 4 = 83 \<and> h 5 = 80 \<and> h 6 = 65 \<and> h 7 = 67 \<and> h 8 = 69 \<and> h 9 = 50"
  by (simp add: memcmp_eq_def char_bytes_def upt_rec eval_nat_numeral)

lemma memcmp_first:
  assumes "0 < n" and "memcmp_eq (c # cs) h n"
  shows "h 0 = of_char c"
proof -
  from assms(2) have "map h [0..<n] ! 0 = take n (char_bytes (c # cs)) ! 0"
    by (simp only: memcmp_eq_def)
  with assms(1) show ?thesis by (simp add: char_bytes_def)
qed

lemma memcmp_one: "memcmp_eq [c] h (Suc 0) \<longleftrightarrow> h 0 = of_char c"
  by (simp add: memcmp_eq_def char_bytes_def)

lemma signature_type_z: "h 0 = 122 \<Longrightarrow> signature_type h = 12"
  by (auto simp: signature_type_def memcmp_one dest!: memcmp_first [rotated])

lemma signature_type_Z: "h 0 = 90 \<Longrightarrow> signature_type h = 13"
  by (auto simp: signature_type_def memcmp_one dest!: memcmp_first [rotated])

lemma memcpy_lit_bytes:
  "length lit = n \<Longrightarrow> map (memcpy_lit h lit n) [0..<n] = char_bytes lit"
  by (auto simp: memcpy_lit_def store_bytes_def char_bytes_def intro!: nth_equalityI)


lemma signatures_differ:
  "memcmp_eq ''SWAPSPACE2'' h 10 \<Longrightarrow> \<not> memcmp_eq ''SWAP-SPACE'' h 10"
  by (simp add: memcmp_SWAP_SPACE memcmp_SWAPSPACE2)

text \<open>
  C10. Disk-signature round trip. Let the first ten bytes of the header be an ordinary
  swap signature, \<open>SWAP-SPACE\<close> (type 0) or \<open>SWAPSPACE2\<close> (type 1), let \<open>bdev\<close> be any
  device id and \<open>block\<close> any block number below \<open>2 ^ 31\<close>, on a machine whose
  \<^verbatim>\<open>unsigned long\<close> has at least 32 bits. Then \<open>prepare_signature\<close> returns 0, and
  parsing the header it leaves returns type 12 or 13 respectively, sets \<open>header_dev_t\<close>
  to \<open>bdev\<close> and \<open>headerblock\<close> to \<open>block\<close>, and clears the resumed-before state; with
  \<open>restore\<close> set, the first ten bytes are the original signature again.
\<close>

theorem signature_round_trip:
  fixes block :: "'l::len word"
  assumes width: "32 \<le> LENGTH('l)"
    and orig: "orig = ''SWAP-SPACE'' \<or> orig = ''SWAPSPACE2''"
    and sig: "memcmp_eq orig header 10"
    and blk: "unat block < 2 ^ 31"
  shows "case prepare_signature bdev block header g of (ret, h', g') \<Rightarrow>
      ret = 0 \<and>
      (case parse_signature h' False g' of (ty, h2, g2) \<Rightarrow>
         ty = (if orig = ''SWAP-SPACE'' then 12 else 13) \<and> header_dev_t g2 = bdev \<and>
         headerblock g2 = block \<and> \<not> resumed_before g2 \<and> h2 = h') \<and>
      (case parse_signature h' True g' of (ty, h2, g2) \<Rightarrow>
         ty = (if orig = ''SWAP-SPACE'' then 12 else 13) \<and> header_dev_t g2 = bdev \<and>
         headerblock g2 = block \<and> \<not> resumed_before g2 \<and>
         map h2 [0..<10] = char_bytes orig)"
proof -
  define z :: byte where "z = (if orig = ''SWAP-SPACE'' then 122 else 90)"
  define h' where "h' = store_bytes (store_bytes (header(0 := z)) 1 (le_bytes bdev 4)) 6
     (le_bytes block (LENGTH('l) div 8))"
  have n4: "4 \<le> LENGTH('l) div 8" using width by simp
  have cur: "parse_signature header False g = ((if orig = ''SWAP-SPACE'' then 0 else 1), header, g)"
    using orig sig by (auto simp: parse_signature_def dest: signatures_differ)
  have prep: "prepare_signature bdev block header g = (0, h', g)"
    using orig ffs_small [OF blk]
    by (auto simp: prepare_signature_def cur h'_def z_def Let_def)
  have h0: "h' 0 = z" by (simp add: h'_def store_bytes_def)
  have h5: "h' 5 = header 5" by (simp add: h'_def store_bytes_def)
  have b5: "header 5 AND 0x80 = 0"
    using orig sig by (auto simp: memcmp_SWAP_SPACE memcmp_SWAPSPACE2)
  have dev: "load32 h' (Suc 0) = bdev"
    by (simp add: h'_def load32_frame load32_store_le)
  have blk': "(ucast (load32 h' 6) :: 'l word) = block"
    using n4 by (simp add: h'_def load32_store_le ucast32_id [OF blk])
  have not1: "\<not> memcmp_eq ''SWAP-SPACE'' h' 10" and not2: "\<not> memcmp_eq ''SWAPSPACE2'' h' 10"
    using h0 by (auto simp: z_def dest!: memcmp_first [rotated] split: if_splits)
  have ty: "signature_type h' = (if orig = ''SWAP-SPACE'' then 12 else 13)"
    using h0 by (auto simp: z_def signature_type_z signature_type_Z)
  have p0: "parse_signature h' False g =
      ((if orig = ''SWAP-SPACE'' then 12 else 13), h',
       g\<lparr>header_dev_t := bdev, resumed_before := False, headerblock := block\<rparr>)"
    using not1 not2 by (simp add: parse_signature_def ty dev blk' h5 b5 Let_def)
  have p1: "parse_signature h' True g =
      ((if orig = ''SWAP-SPACE'' then 12 else 13), memcpy_lit h' orig 10,
       g\<lparr>header_dev_t := bdev, resumed_before := False, headerblock := block\<rparr>)"
    using not1 not2 orig by (auto simp: parse_signature_def ty dev blk' h5 b5 Let_def)
  have len: "length orig = 10" using orig by auto
  show ?thesis
    by (simp add: prep p0 p1 memcpy_lit_bytes [OF len])
qed


theorem signature_round_trip_witness:
  "memcmp_eq ''SWAPSPACE2'' (\<lambda>i. if i < 10 then char_bytes ''SWAPSPACE2'' ! i else 0) 10 \<and>
   unat (4242 :: 64 word) < 2 ^ 31 \<and>
   (case prepare_signature 0x803 (4242 :: 64 word)
           (\<lambda>i. if i < 10 then char_bytes ''SWAPSPACE2'' ! i else 0)
           \<lparr>header_dev_t = 0, headerblock = 0, resumed_before = True\<rparr> of
      (ret, h', g') \<Rightarrow>
        ret = 0 \<and>
        (case parse_signature h' False g' of (ty, h2, g2) \<Rightarrow>
           ty = 13 \<and> header_dev_t g2 = 0x803 \<and> headerblock g2 = 4242 \<and>
           \<not> resumed_before g2 \<and> h2 = h') \<and>
        (case parse_signature h' True g' of (ty, h2, g2) \<Rightarrow>
           ty = 13 \<and> header_dev_t g2 = 0x803 \<and> headerblock g2 = 4242 \<and>
           \<not> resumed_before g2 \<and> map h2 [0..<10] = char_bytes ''SWAPSPACE2''))"
proof -
  let ?h = "\<lambda>i::nat. if i < 10 then char_bytes ''SWAPSPACE2'' ! i else (0::byte)"
  have sig: "memcmp_eq ''SWAPSPACE2'' ?h 10"
    by (simp add: memcmp_SWAPSPACE2 char_bytes_def)
  have blk: "unat (4242 :: 64 word) < 2 ^ 31" by simp
  have w: "32 \<le> LENGTH(64)" by simp
  have o: "''SWAPSPACE2'' = ''SWAP-SPACE'' \<or> ''SWAPSPACE2'' = ''SWAPSPACE2''" by simp
  show ?thesis
    using signature_round_trip [OF w o sig blk, of "0x803"
        "\<lparr>header_dev_t = 0, headerblock = 0, resumed_before = True\<rparr>"] sig blk
    by simp
qed

section \<open>Properties of the classification pass\<close>

lemma free_run_ge: "posn \<le> free_run fm l posn"
proof (induction fm l posn rule: free_run.induct)
  case (1 fm l posn)
  show ?case
  proof (cases "posn < l \<and> fm posn")
    case True
    with 1 have "Suc posn \<le> free_run fm l (Suc posn)" by simp
    with True show ?thesis by (subst free_run.simps) simp
  next
    case False
    then show ?thesis by (subst free_run.simps) auto
  qed
qed

lemma free_run_le: "posn \<le> l \<Longrightarrow> free_run fm l posn \<le> l"
proof (induction fm l posn rule: free_run.induct)
  case (1 fm l posn)
  show ?case
  proof (cases "posn < l \<and> fm posn")
    case True
    with 1 have "free_run fm l (Suc posn) \<le> l" by simp
    with True show ?thesis by (subst free_run.simps) simp
  next
    case False
    with 1 show ?thesis by (subst free_run.simps) auto
  qed
qed

lemma free_run_all: "posn \<le> p \<Longrightarrow> p < free_run fm l posn \<Longrightarrow> fm p"
proof (induction fm l posn rule: free_run.induct)
  case (1 fm l posn)
  show ?case
  proof (cases "posn < l \<and> fm posn")
    case True
    then have eq: "free_run fm l posn = free_run fm l (Suc posn)"
      by (subst free_run.simps) simp
    show ?thesis
    proof (cases "p = posn")
      case True
      with \<open>posn < l \<and> fm posn\<close> show ?thesis by simp
    next
      case False
      with 1 True eq show ?thesis by simp
    qed
  next
    case False
    then have "free_run fm l posn = posn" by (subst free_run.simps) auto
    with 1 show ?thesis by simp
  qed
qed

lemma free_run_stop: "free_run fm l posn < l \<Longrightarrow> \<not> fm (free_run fm l posn)"
proof (induction fm l posn rule: free_run.induct)
  case (1 fm l posn)
  show ?case
  proof (cases "posn < l \<and> fm posn")
    case True
    then have eq: "free_run fm l posn = free_run fm l (Suc posn)"
      by (subst free_run.simps) simp
    with 1 True show ?thesis by simp
  next
    case False
    then have eq: "free_run fm l posn = posn" by (subst free_run.simps) auto
    with 1 False show ?thesis by auto
  qed
qed

lemma free_run_first: "posn < l \<Longrightarrow> free_run fm l posn = posn \<longleftrightarrow> \<not> fm posn"
  using free_run_ge [of "Suc posn" fm l]
  by (subst free_run.simps) auto


lemma add4_zero [simp]: "add4 (0, 0, 0, 0) t = t" "add4 t (0, 0, 0, 0) = t"
  by (simp_all add: add4_def split: prod.splits)

lemma add4_assoc: "add4 (add4 a b) c = add4 a (add4 b c)"
  by (simp add: add4_def split: prod.splits)

lemma same_inputs_refl [simp]: "same_inputs s s"
  by (simp add: same_inputs_def)

lemma same_inputs_trans: "same_inputs s s' \<Longrightarrow> same_inputs s' s'' \<Longrightarrow> same_inputs s s''"
  by (simp add: same_inputs_def)

lemma classify_same: "same_inputs s s' \<Longrightarrow> classify s' z p = classify s z p"
  by (simp add: same_inputs_def classify_def page_excluded_def)

lemma pages_tally_same: "same_inputs s s' \<Longrightarrow> pages_tally s' z ps = pages_tally s z ps"
  by (simp add: pages_tally_def classify_same)

lemma pages_tally_Nil [simp]: "pages_tally s z [] = (0, 0, 0, 0)"
  by (simp add: pages_tally_def)

lemma pages_tally_Cons:
  "pages_tally s z (p # ps) = add4 (class_tally (classify s z p)) (pages_tally s z ps)"
  by (simp add: pages_tally_def)

lemma pages_tally_append:
  "pages_tally s z (ps @ qs) = add4 (pages_tally s z ps) (pages_tally s z qs)"
  by (induction ps) (simp_all add: pages_tally_Cons add4_assoc)

lemma pages_tally_free:
  "(\<And>p. p \<in> set ps \<Longrightarrow> classify s z p = Free) \<Longrightarrow>
   pages_tally s z ps = (int (length ps), 0, 0, 0)"
  by (induction ps) (simp_all add: pages_tally_Cons add4_def)

lemma flag_page_same: "same_inputs s (flag_page z p s)"
  by (simp add: flag_page_def same_inputs_def Let_def)

lemma flag_page_tally:
  assumes "pfn_valid (world s) p" and "\<not> free_map s p"
  shows "tally_of (flag_page z p s) = add4 (tally_of s) (class_tally (classify s z p))"
  using assms by (simp add: flag_page_def classify_def page_excluded_def Let_def tally_of_def add4_def)

lemma num_free_tally:
  "tally_of (s\<lparr>num_free := num_free s + k\<rparr>) = add4 (tally_of s) (k, 0, 0, 0)"
  by (simp add: tally_of_def add4_def)

lemma flag_zone_from_tally:
  assumes "\<And>p. in_span z p \<Longrightarrow> free_map s p \<Longrightarrow> pfn_valid (world s) p"
  shows "same_inputs s (flag_zone_from z loop s) \<and>
    tally_of (flag_zone_from z loop s) =
      add4 (tally_of s)
        (pages_tally s z [zone_start_pfn z + loop ..< zone_start_pfn z + spanned_pages z])"
  using assms
proof (induction z loop s rule: flag_zone_from.induct)
  case (1 z loop s)
  let ?b = "zone_start_pfn z"
  let ?e = "zone_start_pfn z + spanned_pages z"
  let ?pfn = "?b + loop"
  show ?case
  proof (cases "loop < spanned_pages z")
    case False
    then have eq: "flag_zone_from z loop s = s" by (subst flag_zone_from.simps) simp
    from False have emp: "[?pfn ..< ?e] = []" by simp
    show ?thesis unfolding eq emp by simp
  next
    case inside: True
    then have cons: "[?pfn ..< ?e] = ?pfn # [Suc ?pfn ..< ?e]"
      by (simp add: upt_conv_Cons)
    show ?thesis
    proof (cases "pfn_valid (world s) ?pfn")
      case False
      then have eq: "flag_zone_from z loop s = flag_zone_from z (loop + 1) s"
        using inside by (subst flag_zone_from.simps) simp
      have cl: "classify s z ?pfn = Invalid" using False by (simp add: classify_def)
      from "1.IH"(1) [OF inside refl False] "1.prems"
      show ?thesis unfolding eq cons by (simp add: pages_tally_Cons cl)
    next
      case valid: True
      then have nn: "\<not> \<not> pfn_valid (world s) ?pfn" by simp
      let ?r = "free_run (free_map s) ?e ?pfn"
      let ?chunk = "size_of_free_region s z ?pfn"
      have chunk: "?chunk = ?r - ?pfn" by (simp add: size_of_free_region_def)
      have r_ge: "?pfn \<le> ?r" by (rule free_run_ge)
      have r_le: "?r \<le> ?e" using inside by (intro free_run_le) simp
      show ?thesis
      proof (cases "?chunk = 0")
        case False
        define s1 where "s1 = s\<lparr>num_free := num_free s + int ?chunk\<rparr>"
        define loop' where "loop' = loop + (?chunk - 1) + 1"
        have eq: "flag_zone_from z loop s = flag_zone_from z loop' s1"
          using inside valid False unfolding s1_def loop'_def
          by (subst flag_zone_from.simps) (simp add: Let_def)
        have same: "same_inputs s s1" by (simp add: same_inputs_def s1_def)
        have next_pfn: "?b + loop' = ?r"
          using False chunk r_ge by (simp add: loop'_def)
        have split: "[?pfn ..< ?e] = [?pfn ..< ?r] @ [?r ..< ?e]"
          using r_ge r_le by (metis le_Suc_ex upt_add_eq_append)
        have free: "classify s z p = Free" if "p \<in> set [?pfn ..< ?r]" for p
        proof -
          from that have "?pfn \<le> p" and "p < ?r" by auto
          then have fm: "free_map s p" by (rule free_run_all)
          from \<open>?pfn \<le> p\<close> \<open>p < ?r\<close> r_le have "in_span z p" by (simp add: in_span_def)
          with fm "1.prems" have "pfn_valid (world s) p" by blast
          with fm show ?thesis by (simp add: classify_def)
        qed
        have "pages_tally s z [?pfn ..< ?r] = (int (length [?pfn ..< ?r]), 0, 0, 0)"
          by (rule pages_tally_free) (rule free)
        then have run: "pages_tally s z [?pfn ..< ?r] = (int ?chunk, 0, 0, 0)"
          by (simp add: chunk)
        have prem: "\<And>p. in_span z p \<Longrightarrow> free_map s1 p \<Longrightarrow> pfn_valid (world s1) p"
          using "1.prems" by (simp add: s1_def)
        have IH: "same_inputs s1 (flag_zone_from z loop' s1) \<and>
            tally_of (flag_zone_from z loop' s1) =
              add4 (tally_of s1) (pages_tally s1 z [?b + loop' ..< ?e])"
          using "1.IH"(2) [OF inside refl nn refl False prem [unfolded s1_def]]
          by (simp add: s1_def loop'_def)
        have t1: "tally_of s1 = add4 (tally_of s) (int ?chunk, 0, 0, 0)"
          unfolding s1_def by (rule num_free_tally)
        from IH have "same_inputs s (flag_zone_from z loop' s1)"
          using same_inputs_trans [OF same] by blast
        moreover from IH have "tally_of (flag_zone_from z loop' s1) =
            add4 (tally_of s) (pages_tally s z [?pfn ..< ?e])"
          unfolding next_pfn split pages_tally_append run t1 pages_tally_same [OF same]
          by (simp add: add4_assoc)
        ultimately show ?thesis unfolding eq by simp
      next
        case True
        define s1 where "s1 = flag_page z ?pfn s"
        have eq: "flag_zone_from z loop s = flag_zone_from z (loop + 1) s1"
          using inside valid True unfolding s1_def
          by (subst flag_zone_from.simps) (simp add: Let_def)
        from True chunk r_ge have "?r = ?pfn" by simp
        then have nf: "\<not> free_map s ?pfn"
          using inside free_run_first [of ?pfn ?e "free_map s"] by simp
        have same: "same_inputs s s1" unfolding s1_def by (rule flag_page_same)
        have prem: "\<And>p. in_span z p \<Longrightarrow> free_map s1 p \<Longrightarrow> pfn_valid (world s1) p"
          using "1.prems" same by (simp add: same_inputs_def)
        have IH: "same_inputs s1 (flag_zone_from z (loop + 1) s1) \<and>
            tally_of (flag_zone_from z (loop + 1) s1) =
              add4 (tally_of s1) (pages_tally s1 z [Suc ?pfn ..< ?e])"
          using "1.IH"(3) [OF inside refl nn refl _ prem [unfolded s1_def]] True
          by (simp add: s1_def)
        have t1: "tally_of s1 = add4 (tally_of s) (class_tally (classify s z ?pfn))"
          unfolding s1_def by (rule flag_page_tally [OF valid nf])
        from IH have "same_inputs s (flag_zone_from z (loop + 1) s1)"
          using same_inputs_trans [OF same] by blast
        moreover from IH have "tally_of (flag_zone_from z (loop + 1) s1) =
            add4 (tally_of s) (pages_tally s z [?pfn ..< ?e])"
          unfolding cons pages_tally_Cons t1 pages_tally_same [OF same]
          by (simp add: add4_assoc)
        ultimately show ?thesis unfolding eq by simp
      qed
    qed
  qed
qed

lemma scan_tally_Nil [simp]: "scan_tally s [] = (0, 0, 0, 0)"
  by (simp add: scan_tally_def)

lemma scan_tally_append:
  "scan_tally s (xs @ ys) = add4 (scan_tally s xs) (scan_tally s ys)"
  by (induction xs) (simp_all add: scan_tally_def add4_assoc split: prod.splits)

lemma scan_tally_pages: "scan_tally s (map (Pair z) ps) = pages_tally s z ps"
  by (induction ps) (simp_all add: scan_tally_def pages_tally_def)

lemma scan_tally_same: "same_inputs s s' \<Longrightarrow> scan_tally s' zps = scan_tally s zps"
  by (simp add: scan_tally_def classify_same)

lemma scan_tally_count:
  "scan_tally s zps =
     (count_class s Free zps, count_class s Nosave zps,
      count_class s Pageset1 zps + count_class s Pageset2_resaved zps,
      count_class s Pageset2 zps + count_class s Pageset2_resaved zps)"
proof (induction zps)
  case Nil
  show ?case by (simp add: count_class_def)
next
  case (Cons zp zps)
  obtain z p where zp: "zp = (z, p)" by (cases zp)
  have step: "scan_tally s (zp # zps) = add4 (class_tally (classify s z p)) (scan_tally s zps)"
    by (simp add: scan_tally_def zp)
  show ?case
    unfolding step Cons.IH
    by (cases "classify s z p") (simp_all add: add4_def count_class_def zp)
qed

lemma flag_zone_tally:
  assumes "populated_zone z \<Longrightarrow> (\<And>p. in_span z p \<Longrightarrow> free_map s p \<Longrightarrow> pfn_valid (world s) p)"
  shows "same_inputs s (flag_zone z s) \<and>
    tally_of (flag_zone z s) =
      add4 (tally_of s) (scan_tally s (if populated_zone z then map (Pair z) (zone_span z) else []))"
proof (cases "populated_zone z")
  case False
  then show ?thesis by (simp add: flag_zone_def)
next
  case True
  from flag_zone_from_tally [of z s 0] assms [OF True]
  show ?thesis using True by (simp add: flag_zone_def scan_tally_pages zone_span_def)
qed

lemma fold_flag_zone_tally:
  assumes "\<And>z p. z \<in> set zs \<Longrightarrow> populated_zone z \<Longrightarrow> in_span z p \<Longrightarrow> free_map s p
             \<Longrightarrow> pfn_valid (world s) p"
  shows "same_inputs s (fold flag_zone zs s) \<and>
    tally_of (fold flag_zone zs s) =
      add4 (tally_of s)
        (scan_tally s (concat (map (\<lambda>z. map (Pair z) (zone_span z)) (filter populated_zone zs))))"
  using assms
proof (induction zs arbitrary: s)
  case Nil
  show ?case by simp
next
  case (Cons z zs)
  define s1 where "s1 = flag_zone z s"
  have z: "same_inputs s s1 \<and> tally_of s1 =
      add4 (tally_of s) (scan_tally s (if populated_zone z then map (Pair z) (zone_span z) else []))"
    unfolding s1_def by (rule flag_zone_tally) (use Cons.prems in auto)
  then have same: "same_inputs s s1" by blast
  have prem: "\<And>z' p. z' \<in> set zs \<Longrightarrow> populated_zone z' \<Longrightarrow> in_span z' p \<Longrightarrow> free_map s1 p
             \<Longrightarrow> pfn_valid (world s1) p"
    using Cons.prems same by (auto simp: same_inputs_def)
  have IH: "same_inputs s1 (fold flag_zone zs s1) \<and>
    tally_of (fold flag_zone zs s1) =
      add4 (tally_of s1)
        (scan_tally s1 (concat (map (\<lambda>z. map (Pair z) (zone_span z)) (filter populated_zone zs))))"
    by (rule Cons.IH) (rule prem)
  from IH same have "same_inputs s (fold flag_zone zs s1)"
    using same_inputs_trans by blast
  moreover from IH z have "tally_of (fold flag_zone zs s1) =
      add4 (tally_of s)
        (scan_tally s (concat (map (\<lambda>z. map (Pair z) (zone_span z)) (filter populated_zone (z # zs)))))"
    by (simp add: scan_tally_append scan_tally_same [OF same] add4_assoc)
  ultimately show ?case by (simp add: s1_def)
qed

lemma free_map_zone_apply:
  "free_map_zone z m p =
     (if \<not> populated_zone z then m p
      else (p \<in> set (zone_free_pages z) \<or> (\<not> in_span z p \<and> m p)))"
  by (simp add: free_map_zone_def set_bits_def)

lemma fold_free_map_zone:
  assumes "fold free_map_zone zs m p"
    and "\<exists>z\<in>set zs. populated_zone z \<and> in_span z p"
  shows "\<exists>z\<in>set zs. populated_zone z \<and> p \<in> set (zone_free_pages z)"
  using assms
proof (induction zs arbitrary: p rule: rev_induct)
  case Nil
  then show ?case by simp
next
  case (snoc z zs)
  from snoc.prems(1) have top: "free_map_zone z (fold free_map_zone zs m) p" by simp
  show ?case
  proof (cases "populated_zone z")
    case False
    with snoc.prems(2) top have "fold free_map_zone zs m p"
      and "\<exists>z\<in>set zs. populated_zone z \<and> in_span z p"
      by (auto simp: free_map_zone_apply)
    from snoc.IH [OF this] show ?thesis by auto
  next
    case True
    show ?thesis
    proof (cases "p \<in> set (zone_free_pages z)")
      case True
      with \<open>populated_zone z\<close> show ?thesis by auto
    next
      case False
      with True top have "\<not> in_span z p" and "fold free_map_zone zs m p"
        by (auto simp: free_map_zone_apply)
      moreover with snoc.prems(2) have "\<exists>z\<in>set zs. populated_zone z \<and> in_span z p"
        by auto
      ultimately show ?thesis using snoc.IH [of p] by auto
    qed
  qed
qed

lemma flag_image_pages_tally:
  assumes "\<And>z p. z \<in> set (zones (world s)) \<Longrightarrow> populated_zone z \<Longrightarrow>
             p \<in> set (zone_free_pages z) \<Longrightarrow> pfn_valid (world s) p"
  shows "same_inputs (generate_free_page_map s) (flag_image_pages atomic_copy s) \<and>
         tally_of (flag_image_pages atomic_copy s) =
           scan_tally (flag_image_pages atomic_copy s) (scanned (world s))"
proof -
  define s0 where "s0 = s\<lparr>num_free := 0, pagedir1_size := 0, pagedir2_size := 0,
                 pagedir1_highmem := 0, pagedir2_highmem := 0, num_nosave := 0,
                 pageset1_map := (\<lambda>_. False)\<rparr>"
  define s1 where "s1 = generate_free_page_map s0"
  define s2 where "s2 = fold flag_zone (zones (world s1)) s1"
  have w1: "world s1 = world s" by (simp add: s1_def s0_def generate_free_page_map_def)
  have fm1: "free_map s1 = fold free_map_zone (zones (world s)) (free_map s)"
    by (simp add: s1_def s0_def generate_free_page_map_def)
  have t1: "tally_of s1 = (0, 0, 0, 0)"
    by (simp add: s1_def s0_def generate_free_page_map_def tally_of_def)
  have g: "same_inputs (generate_free_page_map s) s1"
    by (simp add: s1_def s0_def generate_free_page_map_def same_inputs_def)
  have prem: "pfn_valid (world s1) p"
    if "z \<in> set (zones (world s1))" "populated_zone z" "in_span z p" "free_map s1 p" for z p
  proof -
    from that have "\<exists>z\<in>set (zones (world s)). populated_zone z \<and> in_span z p"
      by (auto simp: w1)
    from fold_free_map_zone [OF that(4) [unfolded fm1] this] assms
    show ?thesis by (auto simp: w1)
  qed
  have fz: "same_inputs s1 s2 \<and> tally_of s2 = add4 (tally_of s1) (scan_tally s1 (scanned (world s)))"
    unfolding s2_def scanned_def w1 [symmetric]
    by (rule fold_flag_zone_tally) (rule prem)
  then have same: "same_inputs s1 s2" by blast
  have res: "flag_image_pages atomic_copy s =
      (if atomic_copy then s2 else log_event (Message ''Count data pages'') s2)"
    by (simp add: flag_image_pages_def s2_def s1_def s0_def Let_def)
  have fin: "same_inputs s2 (flag_image_pages atomic_copy s)"
    and tfin: "tally_of (flag_image_pages atomic_copy s) = tally_of s2"
    by (simp_all add: res same_inputs_def log_event_def tally_of_def)
  have "same_inputs s1 (flag_image_pages atomic_copy s)"
    using same fin by (rule same_inputs_trans)
  with g fz tfin t1 show ?thesis
    using same_inputs_trans [OF g] by (simp add: scan_tally_same)
qed

lemma valid_count:
  "int (length (filter (\<lambda>(z, p). pfn_valid (world s) p) zps)) =
     count_class s Free zps + count_class s Nosave zps + count_class s Pageset1 zps
       + count_class s Pageset2 zps + count_class s Pageset2_resaved zps"
proof (induction zps)
  case Nil
  show ?case by (simp add: count_class_def)
next
  case (Cons zp zps)
  obtain z p where zp: "zp = (z, p)" by (cases zp)
  have v: "pfn_valid (world s) p \<longleftrightarrow> classify s z p \<noteq> Invalid"
    by (simp add: classify_def)
  from Cons.IH show ?case
    by (cases "classify s z p") (simp_all add: count_class_def zp v)
qed

lemma length_filter_split:
  "length (filter (\<lambda>x. A x \<and> B x) xs) + length (filter (\<lambda>x. A x \<and> \<not> B x) xs)
     = length (filter A xs)"
  by (induction xs) auto

text \<open>
  C3, as the code has it. Let every page on a free list of a populated zone be a valid
  page frame. After one pass of \<open>flag_image_pages\<close>, each page frame of each populated
  zone's span falls in exactly one class (invalid, free, nosave, pageset1, pageset2, or
  pageset2 and flagged for resaving), \<open>num_free\<close> and \<open>num_nosave\<close> are the numbers of free
  and nosave page frames, \<open>pagedir1.size\<close> counts the pageset1 page frames and the resaved
  ones, \<open>pagedir2.size\<close> counts the pageset2 page frames and the resaved ones, and so the
  four counters add up to the number of valid page frames scanned plus the number of
  resaved ones, each of which is counted in both page sets.
\<close>

theorem flag_image_pages_partition:
  fixes s :: toi and atomic_copy :: bool
  assumes "\<forall>z\<in>set (zones (world s)). populated_zone z \<longrightarrow>
             (\<forall>p\<in>set (zone_free_pages z). pfn_valid (world s) p)"
  defines "s' \<equiv> flag_image_pages atomic_copy s"
    and "sc \<equiv> scanned (world s)"
  shows "num_free s' = count_class s' Free sc \<and>
         num_nosave s' = count_class s' Nosave sc \<and>
         pagedir1_size s' = count_class s' Pageset1 sc + count_class s' Pageset2_resaved sc \<and>
         pagedir2_size s' = count_class s' Pageset2 sc + count_class s' Pageset2_resaved sc \<and>
         pagedir1_size s' + pagedir2_size s' + num_nosave s' + num_free s' =
           int (length (filter (\<lambda>(z, p). pfn_valid (world s) p) sc))
             + count_class s' Pageset2_resaved sc"
proof -
  have t: "same_inputs (generate_free_page_map s) s' \<and> tally_of s' = scan_tally s' sc"
    unfolding s'_def sc_def by (rule flag_image_pages_tally) (use assms(1) in blast)
  then have w: "world s' = world s"
    by (simp add: same_inputs_def generate_free_page_map_def)
  from t have "tally_of s' =
     (count_class s' Free sc, count_class s' Nosave sc,
      count_class s' Pageset1 sc + count_class s' Pageset2_resaved sc,
      count_class s' Pageset2 sc + count_class s' Pageset2_resaved sc)"
    by (simp add: scan_tally_count)
  then have c: "num_free s' = count_class s' Free sc"
    "num_nosave s' = count_class s' Nosave sc"
    "pagedir1_size s' = count_class s' Pageset1 sc + count_class s' Pageset2_resaved sc"
    "pagedir2_size s' = count_class s' Pageset2 sc + count_class s' Pageset2_resaved sc"
    by (simp_all add: tally_of_def)
  from valid_count [of s' sc] c show ?thesis by (simp add: w)
qed


lemmas eval_pass =
  flag_image_pages_def simple_toi_def simple_world_def simple_zone_def
  generate_free_page_map_def free_map_zone_def zone_free_pages_def set_bits_def in_span_def
  flag_zone_def flag_zone_from.simps size_of_free_region_def free_run.simps flag_page_def Let_def
  scanned_def zone_span_def block_pages_def

text \<open>
  The claim C3 as stated fails on a single page frame that is pageset2 and flagged for
  resaving: it is counted in both page sets, and the four counters add up to 2 for one
  valid page frame scanned.
\<close>

theorem flag_image_pages_partition_counterexample:
  "let s = simple_toi (simple_world [simple_zone 0 1] 0) (\<lambda>_. False) (\<lambda>_. True) (\<lambda>_. True);
       s' = flag_image_pages False s
   in pagedir1_size s' = 1 \<and> pagedir2_size s' = 1 \<and> num_nosave s' = 0 \<and> num_free s' = 0 \<and>
      length (filter (\<lambda>(z, p). pfn_valid (world s) p) (scanned (world s))) = 1 \<and>
      pagedir1_size s' + pagedir2_size s' + num_nosave s' + num_free s'
        \<noteq> int (length (filter (\<lambda>(z, p). pfn_valid (world s) p) (scanned (world s))))"
  by (simp add: eval_pass log_event_def)

theorem flag_image_pages_partition_witness:
  "let s' = flag_image_pages True mixed_toi; sc = scanned (world mixed_toi) in
     (num_free s' = count_class s' Free sc \<and>
      num_nosave s' = count_class s' Nosave sc \<and>
      pagedir1_size s' = count_class s' Pageset1 sc + count_class s' Pageset2_resaved sc \<and>
      pagedir2_size s' = count_class s' Pageset2 sc + count_class s' Pageset2_resaved sc \<and>
      pagedir1_size s' + pagedir2_size s' + num_nosave s' + num_free s' =
        int (length (filter (\<lambda>(z, p). pfn_valid (world mixed_toi) p) sc))
          + count_class s' Pageset2_resaved sc) \<and>
     num_free s' = 2 \<and> num_nosave s' = 1 \<and> pagedir1_size s' = 2 \<and> pagedir2_size s' = 2 \<and>
     length (filter (\<lambda>(z, p). pfn_valid (world mixed_toi) p) sc) = 6"
proof -
  have hyp: "\<forall>z\<in>set (zones (world mixed_toi)). populated_zone z \<longrightarrow>
             (\<forall>p\<in>set (zone_free_pages z). pfn_valid (world mixed_toi) p)"
    by (simp add: mixed_toi_def simple_toi_def simple_world_def)
  have vals: "num_free (flag_image_pages True mixed_toi) = 2 \<and>
      num_nosave (flag_image_pages True mixed_toi) = 1 \<and>
      pagedir1_size (flag_image_pages True mixed_toi) = 2 \<and>
      pagedir2_size (flag_image_pages True mixed_toi) = 2"
    by (simp add: mixed_toi_def mixed_zone_def eval_pass)
  have len: "length (filter (\<lambda>(z, p). pfn_valid (world mixed_toi) p) (scanned (world mixed_toi))) = 6"
    by (simp add: mixed_toi_def mixed_zone_def simple_toi_def simple_world_def simple_zone_def
        scanned_def zone_span_def)
  show ?thesis
    using flag_image_pages_partition [OF hyp, of True] vals len
    by (simp add: Let_def)
qed


lemma no_free_pages:
  assumes "\<forall>z\<in>set zs. populated_zone z \<longrightarrow> zone_free_pages z = []"
    and "\<exists>z\<in>set zs. populated_zone z \<and> in_span z p"
  shows "\<not> fold free_map_zone zs m p"
  using fold_free_map_zone [of zs m p] assms by auto

lemma scanned_in_span:
  "(z, p) \<in> set (scanned w) \<Longrightarrow> z \<in> set (zones w) \<and> populated_zone z \<and> in_span z p"
  by (auto simp: scanned_def zone_span_def in_span_def)

lemma count_class_cong:
  "(\<And>z p. (z, p) \<in> set zps \<Longrightarrow> (classify s z p = c) = Q (z, p)) \<Longrightarrow>
   count_class s c zps = int (length (filter Q zps))"
  unfolding count_class_def
  by (rule arg_cong [where f = int], rule arg_cong [where f = length], rule filter_cong) auto

text \<open>
  C4. The resave scenario. Let the pass visit 1000 page frames, all valid, none of them
  free, of which 50 are excluded (nosave), 300 are not excluded and marked pageset2, and
  10 of those 300 are flagged for resaving. Then one pass leaves \<open>pagedir1.size = 660\<close>
  and \<open>pagedir2.size = 300\<close>.
\<close>

theorem resave_scenario:
  fixes s :: toi and atomic_copy :: bool
  defines "s' \<equiv> flag_image_pages atomic_copy s"
    and "sc \<equiv> scanned (world s)"
  assumes nofree: "\<forall>z\<in>set (zones (world s)). populated_zone z \<longrightarrow> zone_free_pages z = []"
    and valid: "\<forall>(z, p)\<in>set sc. pfn_valid (world s) p"
    and total: "length sc = 1000"
    and n_nosave: "length (filter (\<lambda>(z, p). page_excluded s z p) sc) = 50"
    and n_ps2: "length (filter (\<lambda>(z, p). \<not> page_excluded s z p \<and> pageset2_map s p) sc) = 300"
    and n_resave: "length (filter (\<lambda>(z, p). \<not> page_excluded s z p \<and> pageset2_map s p
                      \<and> resave_map s p) sc) = 10"
  shows "pagedir1_size s' = 660 \<and> pagedir2_size s' = 300"
proof -
  have hyp: "\<forall>z\<in>set (zones (world s)). populated_zone z \<longrightarrow>
             (\<forall>p\<in>set (zone_free_pages z). pfn_valid (world s) p)"
    using nofree by simp
  note part = flag_image_pages_partition [OF hyp, of atomic_copy, folded s'_def sc_def]
  have same: "same_inputs (generate_free_page_map s) s'"
    unfolding s'_def using flag_image_pages_tally [of s atomic_copy] hyp by blast
  then have w: "world s' = world s" and ns: "nosave_map s' = nosave_map s"
    and p2: "pageset2_map s' = pageset2_map s" and rs: "resave_map s' = resave_map s"
    and fm: "free_map s' = fold free_map_zone (zones (world s)) (free_map s)"
    by (simp_all add: same_inputs_def generate_free_page_map_def)
  have ex: "page_excluded s' z p = page_excluded s z p" for z p
    by (simp add: page_excluded_def w ns)
  have cls: "classify s' z p =
      (if page_excluded s z p then Nosave
       else if pageset2_map s p then (if resave_map s p then Pageset2_resaved else Pageset2)
       else Pageset1)" if "(z, p) \<in> set sc" for z p
  proof -
    from that valid have v: "pfn_valid (world s) p" by auto
    from that have "\<exists>z\<in>set (zones (world s)). populated_zone z \<and> in_span z p"
      unfolding sc_def by (auto dest: scanned_in_span)
    with nofree have "\<not> free_map s' p" unfolding fm by (rule no_free_pages)
    with v show ?thesis by (simp add: classify_def w ex p2 rs)
  qed
  have cR: "count_class s' Pageset2_resaved sc = 10"
    using count_class_cong [of sc s' Pageset2_resaved
        "\<lambda>(z, p). \<not> page_excluded s z p \<and> pageset2_map s p \<and> resave_map s p"]
      cls n_resave by auto
  have c2: "count_class s' Pageset2 sc =
      int (length (filter (\<lambda>(z, p). \<not> page_excluded s z p \<and> pageset2_map s p
                      \<and> \<not> resave_map s p) sc))"
    by (rule count_class_cong) (auto simp: cls)
  have c1: "count_class s' Pageset1 sc =
      int (length (filter (\<lambda>(z, p). \<not> page_excluded s z p \<and> \<not> pageset2_map s p) sc))"
    by (rule count_class_cong) (auto simp: cls)
  have s2: "length (filter (\<lambda>(z, p). \<not> page_excluded s z p \<and> pageset2_map s p
                      \<and> \<not> resave_map s p) sc) = 290"
    using length_filter_split [of "\<lambda>(z, p). \<not> page_excluded s z p \<and> pageset2_map s p"
        "\<lambda>(z, p). resave_map s p" sc] n_ps2 n_resave
    by (simp add: case_prod_unfold)
  have s0: "length (filter (\<lambda>(z, p). \<not> page_excluded s z p) sc) = 950"
    using sum_length_filter_compl [of "\<lambda>(z, p). page_excluded s z p" sc] n_nosave total
    by (simp add: case_prod_unfold)
  have s1: "length (filter (\<lambda>(z, p). \<not> page_excluded s z p \<and> \<not> pageset2_map s p) sc) = 650"
    using length_filter_split [of "\<lambda>(z, p). \<not> page_excluded s z p"
        "\<lambda>(z, p). pageset2_map s p" sc] n_ps2 s0
    by (simp add: case_prod_unfold)
  from part show ?thesis by (simp add: cR c2 c1 s2 s1)
qed


lemma length_filter_interval:
  "length (filter (\<lambda>p. a \<le> p \<and> p < b) [0..<n]) = min b n - a"
proof -
  have "{p. a \<le> p \<and> p < b} \<inter> set [0..<n] = {a..<min b n}" by auto
  then show ?thesis by (simp add: distinct_length_filter)
qed

lemma length_filter_below:
  "length (filter (\<lambda>p. p < b) [0..<n]) = min b n"
  using length_filter_interval [of 0 b n] by simp

theorem resave_scenario_witness:
  "length (scanned (world scenario_toi)) = 1000 \<and>
   length (filter (\<lambda>(z, p). page_excluded scenario_toi z p) (scanned (world scenario_toi))) = 50 \<and>
   length (filter (\<lambda>(z, p). \<not> page_excluded scenario_toi z p \<and> pageset2_map scenario_toi p)
             (scanned (world scenario_toi))) = 300 \<and>
   length (filter (\<lambda>(z, p). \<not> page_excluded scenario_toi z p \<and> pageset2_map scenario_toi p
                      \<and> resave_map scenario_toi p) (scanned (world scenario_toi))) = 10 \<and>
   pagedir1_size (flag_image_pages False scenario_toi) = 660 \<and>
   pagedir2_size (flag_image_pages False scenario_toi) = 300"
proof -
  have sc: "scanned (world scenario_toi) = map (Pair (simple_zone 0 1000)) [0..<1000]"
    by (simp add: scenario_toi_def simple_toi_def simple_world_def scanned_def zone_span_def
        simple_zone_def)
  have ex: "page_excluded scenario_toi z p \<longleftrightarrow> p < 50" for z p
    by (simp add: scenario_toi_def simple_toi_def simple_world_def page_excluded_def)
  have p2: "pageset2_map scenario_toi p \<longleftrightarrow> 50 \<le> p \<and> p < 350" for p
    by (simp add: scenario_toi_def simple_toi_def)
  have rs: "resave_map scenario_toi p \<longleftrightarrow> 50 \<le> p \<and> p < 60" for p
    by (simp add: scenario_toi_def simple_toi_def)
  have nofree: "\<forall>z\<in>set (zones (world scenario_toi)). populated_zone z \<longrightarrow> zone_free_pages z = []"
    by (simp add: scenario_toi_def simple_toi_def simple_world_def simple_zone_def
        zone_free_pages_def)
  have valid: "\<forall>(z, p)\<in>set (scanned (world scenario_toi)). pfn_valid (world scenario_toi) p"
    by (simp add: scenario_toi_def simple_toi_def simple_world_def)
  have total: "length (scanned (world scenario_toi)) = 1000" by (simp add: sc)
  have n1: "length (filter (\<lambda>(z, p). page_excluded scenario_toi z p)
      (scanned (world scenario_toi))) = 50"
    by (simp add: sc ex filter_map o_def length_filter_below)
  have a: "(\<not> p < 50 \<and> 50 \<le> p \<and> p < 350) = (50 \<le> p \<and> p < 350)" for p :: nat by auto
  have b: "(\<not> p < 50 \<and> 50 \<le> p \<and> p < 350 \<and> 50 \<le> p \<and> p < 60) = (50 \<le> p \<and> p < 60)"
    for p :: nat by auto
  have n2: "length (filter (\<lambda>(z, p). \<not> page_excluded scenario_toi z p \<and> pageset2_map scenario_toi p)
             (scanned (world scenario_toi))) = 300"
    by (simp add: sc ex p2 filter_map o_def a length_filter_interval del: not_less)
  have n3: "length (filter (\<lambda>(z, p). \<not> page_excluded scenario_toi z p \<and> pageset2_map scenario_toi p
                      \<and> resave_map scenario_toi p) (scanned (world scenario_toi))) = 10"
    by (simp add: sc ex p2 rs filter_map o_def b length_filter_interval del: not_less)
  from resave_scenario [OF nofree valid total n1 n2 n3, of False] total n1 n2 n3
  show ?thesis by simp
qed


section \<open>Properties of the negotiator's arithmetic\<close>

lemma ceil_half_div: "ceil_half x = (x + 1) div 2"
proof -
  have "ceil_half x = - (- x div 2)"
    unfolding ceil_half_def using ceiling_divide_eq_div [of x 2] by simp
  then show ?thesis by linarith
qed






text \<open>
  For a negative even numerator \<^verbatim>\<open>DIV_ROUND_UP\<close> is not the ceiling, since C's division
  truncates towards zero; the difference vanishes under \<open>max 0\<close>.
\<close>

lemma DIV_ROUND_UP_negative_even: "DIV_ROUND_UP (- 4) 2 = - 1 \<and> ceil_half (- 4) = - 2"
  by (simp add: DIV_ROUND_UP_def c_div_def ceil_half_div)














text \<open>
  The claim C6 as stated fails where a result leaves the range of an \<^verbatim>\<open>int\<close>: with 300
  pages in the image and a cap of \<open>2 ^ 24\<close> MB, \<^verbatim>\<open>image_size_limit << 8\<close> is 0 in 32 bits,
  so that the code finds 300 pages to free where the formula finds none.
\<close>




section \<open>Properties of the requests\<close>

lemma extends_iff:
  "extends P s s' \<longleftrightarrow>
     image_size_limit s' = image_size_limit s \<and> (\<exists>es. events s' = events s @ es \<and> list_all P es)"
  unfolding extends_def new_events_def
  by (metis append_eq_conv_conj append_take_drop_id)

lemma extends_refl [simp]: "extends P s s"
  by (simp add: extends_def new_events_def)

lemma extends_trans: "extends P s s' \<Longrightarrow> extends P s' s'' \<Longrightarrow> extends P s s''"
  by (auto simp: extends_iff)

lemma extends_mono: "(\<And>e. P e \<Longrightarrow> Q e) \<Longrightarrow> extends P s s' \<Longrightarrow> extends Q s s'"
  by (auto simp: extends_iff list_all_iff)

lemma extends_same:
  "events s' = events s \<Longrightarrow> image_size_limit s' = image_size_limit s \<Longrightarrow> extends P s s'"
  by (simp add: extends_def new_events_def)

lemma extends_log: "P e \<Longrightarrow> extends P s (log_event e s)"
  by (simp add: extends_iff log_event_def)

lemma extends_call: "P e \<Longrightarrow> extends P s (call e f s)"
  by (simp add: extends_iff log_event_def call_def)

lemma extends_call_ret: "P e \<Longrightarrow> call_ret e f s = (r, s') \<Longrightarrow> extends P s s'"
  by (auto simp: extends_iff log_event_def call_ret_def split: prod.splits)

lemma extends_abort: "extends P s (set_abort_result r s)"
  by (simp add: extends_def new_events_def set_abort_result_def)

lemma flag_page_quiet:
  "events (flag_page z p s) = events s \<and> image_size_limit (flag_page z p s) = image_size_limit s
   \<and> toi_result (flag_page z p s) = toi_result s"
  by (simp add: flag_page_def Let_def)

lemma flag_zone_from_quiet:
  "events (flag_zone_from z loop s) = events s \<and>
   image_size_limit (flag_zone_from z loop s) = image_size_limit s \<and>
   toi_result (flag_zone_from z loop s) = toi_result s"
proof (induction z loop s rule: flag_zone_from.induct)
  case (1 z loop s)
  show ?case
    apply (subst (1 2 3) flag_zone_from.simps)
    using 1 by (simp add: Let_def flag_page_quiet)
qed

lemma fold_flag_zone_quiet:
  "events (fold flag_zone zs s) = events s \<and>
   image_size_limit (fold flag_zone zs s) = image_size_limit s \<and>
   toi_result (fold flag_zone zs s) = toi_result s"
  by (induction zs arbitrary: s) (simp_all add: flag_zone_def flag_zone_from_quiet)

lemma flag_image_pages_extends:
  "extends recalc_event s (flag_image_pages atomic_copy s)"
  by (simp add: flag_image_pages_def Let_def extends_iff log_event_def fold_flag_zone_quiet
      generate_free_page_map_def)



lemma alloc_attention_list_extends:
  "alloc_attention_list E n s = (ok, s') \<Longrightarrow> extends recalc_event s s'"
proof (induction n arbitrary: s)
  case 0
  then show ?case by simp
next
  case (Suc n)
  obtain r s1 where c: "call_ret Kmalloc (kmalloc E) s = (r, s1)" by fastforce
  then have e1: "extends recalc_event s s1" by (rule extends_call_ret [rotated]) simp
  show ?case
  proof (cases r)
    case True
    with Suc.prems c have "alloc_attention_list E n s1 = (ok, s')" by simp
    from e1 Suc.IH [OF this] show ?thesis by (rule extends_trans)
  next
    case False
    with Suc.prems c have "s' = s1" by simp
    with e1 show ?thesis by simp
  qed
qed

lemma mark_task_quiet:
  "events (suspend_mark_task_as_pageset t b s) = events s \<and>
   image_size_limit (suspend_mark_task_as_pageset t b s) = image_size_limit s \<and>
   toi_result (suspend_mark_task_as_pageset t b s) = toi_result s"
  by (simp add: suspend_mark_task_as_pageset_def)

lemma fold_mark_task_quiet:
  "events (fold (\<lambda>p. suspend_mark_task_as_pageset p b) ts s) = events s \<and>
   image_size_limit (fold (\<lambda>p. suspend_mark_task_as_pageset p b) ts s) = image_size_limit s \<and>
   toi_result (fold (\<lambda>p. suspend_mark_task_as_pageset p b) ts s) = toi_result s"
  by (induction ts arbitrary: s) (simp_all add: mark_task_quiet)

lemma suspend_mark_pages_for_pageset2_extends:
  "extends recalc_event s (suspend_mark_pages_for_pageset2 E s)"
proof (cases "test_action_state TOI_NO_PAGESET2 s")
  case True
  then show ?thesis by (simp add: suspend_mark_pages_for_pageset2_def)
next
  case False
  define s1 where "s1 = s\<lparr>pageset2_map := (\<lambda>_. False)\<rparr>"
  define s2 where "s2 = (if test_action_state TOI_PAGESET2_FULL s1 then pageset2_full s1
                  else fold (\<lambda>p. suspend_mark_task_as_pageset p True)
                         (filter (\<lambda>p. has_mm p \<and> \<not> pf_borrowed_mm p) (tasks (world s1))) s1)"
  define attention where "attention = filter needs_attention (tasks (world s2))"
  obtain ok s3 where a: "alloc_attention_list E (length attention) s2 = (ok, s3)" by fastforce
  have e2: "extends recalc_event s s2"
    by (rule extends_same)
      (simp_all add: s2_def s1_def pageset2_full_def fold_mark_task_quiet)
  have e3: "extends recalc_event s2 s3" using a by (rule alloc_attention_list_extends)
  have res: "suspend_mark_pages_for_pageset2 E s =
      (if \<not> ok then set_abort_result TOI_UNABLE_TO_PREPARE_IMAGE s3
       else if test_result_state TOI_ABORTED s3 then s3
       else fold (\<lambda>p. suspend_mark_task_as_pageset p False) attention s3)"
    using False a
    by (simp add: suspend_mark_pages_for_pageset2_def Let_def s1_def [symmetric]
        s2_def [symmetric] attention_def [symmetric])
  have e4: "extends recalc_event s3 (suspend_mark_pages_for_pageset2 E s)"
    unfolding res
    by (auto intro: extends_abort extends_same simp: fold_mark_task_quiet)
  from e2 e3 e4 show ?thesis by (blast intro: extends_trans)
qed

lemma suspend_recalculate_image_contents_extends:
  "extends recalc_event s (suspend_recalculate_image_contents E atomic_copy s)"
proof -
  define s1 where "s1 = s\<lparr>pageset1_map := (\<lambda>_. False)\<rparr>"
  define s2 where "s2 = (if atomic_copy then s1
                else suspend_mark_pages_for_pageset2 E
                       (s1\<lparr>pageset1_copy_map :=
                             (\<lambda>p. pageset1_copy_map s1 p \<and> \<not> pageset2_map s1 p)\<rparr>))"
  define s3 where "s3 = flag_image_pages atomic_copy s2"
  have e1: "extends recalc_event s s2"
  proof (cases atomic_copy)
    case True
    then show ?thesis by (simp add: s2_def s1_def extends_def new_events_def)
  next
    case False
    have "extends recalc_event s (s1\<lparr>pageset1_copy_map :=
              (\<lambda>p. pageset1_copy_map s1 p \<and> \<not> pageset2_map s1 p)\<rparr>)"
      by (simp add: s1_def extends_def new_events_def)
    with False show ?thesis
      unfolding s2_def
      by (auto intro: extends_trans suspend_mark_pages_for_pageset2_extends)
  qed
  have e2: "extends recalc_event s2 s3"
    unfolding s3_def by (rule flag_image_pages_extends)
  have res: "suspend_recalculate_image_contents E atomic_copy s =
      (if atomic_copy then s3
       else display_stats False False (log_event Storage_available
              (s3\<lparr>storage_available := allocator_storage_available E (world s3)\<rparr>)))"
    by (simp add: suspend_recalculate_image_contents_def Let_def s3_def s2_def s1_def)
  have e3: "extends recalc_event s3 (suspend_recalculate_image_contents E atomic_copy s)"
    unfolding res by (simp add: extends_iff display_stats_def log_event_def)
  from e1 e2 e3 show ?thesis by (blast intro: extends_trans)
qed







section \<open>Properties of image preparation\<close>

lemma recalc_inner: "recalc_event e \<Longrightarrow> inner_event e"
  by (cases e) simp_all

lemma recalc_inner_extends:
  "extends inner_event s (suspend_recalculate_image_contents E atomic_copy s)"
  using suspend_recalculate_image_contents_extends
  by (rule extends_mono [rotated]) (rule recalc_inner)

lemma get_pages_retry_extends:
  "get_pages_retry E order s = (v, order', s') \<Longrightarrow> extends inner_event s s'"
proof (induction order arbitrary: s)
  case 0
  then show ?case
    by (auto split: prod.splits intro: extends_call_ret [rotated])
next
  case (Suc k)
  obtain r s1 where c: "call_ret (Get_free_pages (Suc k)) (get_free_pages E (Suc k)) s = (r, s1)"
    by fastforce
  then have e1: "extends inner_event s s1" by (rule extends_call_ret [rotated]) simp
  show ?case
  proof (cases r)
    case None
    with Suc.prems c have "get_pages_retry E k s1 = (v, order', s')" by simp
    from e1 Suc.IH [OF this] show ?thesis by (rule extends_trans)
  next
    case (Some p)
    with Suc.prems c have "s' = s1" by simp
    with e1 show ?thesis by simp
  qed
qed

lemma extra_pagedir_loop_extends:
  "extends inner_event s (snd (extra_pagedir_loop E n order s))"
proof (induction E n order s rule: extra_pagedir_loop.induct)
  case (1 E n order s)
  show ?case
  proof (cases "n \<le> 0")
    case True
    then show ?thesis by (subst extra_pagedir_loop.simps) simp
  next
    case False
    obtain ok s1 where k: "call_ret Kmalloc (kmalloc E) s = (ok, s1)" by fastforce
    then have e1: "extends inner_event s s1" by (rule extends_call_ret [rotated]) simp
    show ?thesis
    proof (cases ok)
      case False
      with \<open>\<not> n \<le> 0\<close> k e1 show ?thesis by (subst extra_pagedir_loop.simps) simp
    next
      case True
      obtain v order2 s2 where g: "get_pages_retry E (fit_order n order) s1 = (v, order2, s2)"
        by (metis prod_cases3)
      then have e2: "extends inner_event s1 s2" by (rule get_pages_retry_extends)
      with e1 have e12: "extends inner_event s s2" by (rule extends_trans)
      show ?thesis
      proof (cases v)
        case None
        with \<open>\<not> n \<le> 0\<close> k True g e12 show ?thesis
          by (subst extra_pagedir_loop.simps) simp
      next
        case (Some newpage)
        define s3 where "s3 = s2\<lparr>extras_list := (newpage, order2) # extras_list s2,
                        nosave_map := set_bits [newpage ..< newpage + 2 ^ order2] (nosave_map s2),
                        pageset1_copy_map :=
                          set_bits [newpage ..< newpage + 2 ^ order2] (pageset1_copy_map s2),
                        extra_pages_allocated := extra_pages_allocated s2 + 2 ^ order2\<rparr>"
        have e3: "extends inner_event s2 s3" by (simp add: s3_def extends_def new_events_def)
        have IH: "extends inner_event s3 (snd (extra_pagedir_loop E (n - 2 ^ order2) order2 s3))"
          using "1.IH" [OF False refl k [symmetric] _ g [symmetric] Some refl] True
          by (simp add: s3_def)
        have eq: "extra_pagedir_loop E n order s = extra_pagedir_loop E (n - 2 ^ order2) order2 s3"
          using \<open>\<not> n \<le> 0\<close> k True g Some
          by (subst extra_pagedir_loop.simps) (simp add: s3_def)
        from e12 e3 IH show ?thesis unfolding eq by (blast intro: extends_trans)
      qed
    qed
  qed
qed

lemma suspend_allocate_extra_pagedir_memory_extends:
  "extends inner_event s (snd (suspend_allocate_extra_pagedir_memory E m n s))"
  by (simp add: suspend_allocate_extra_pagedir_memory_def Let_def extra_pagedir_loop_extends)


lemma freeze_or_abort_extends: "extends inner_event s (freeze_or_abort E s)"
proof -
  obtain frozen s1 where f: "call_ret Freeze_processes (freeze_processes E) s = (frozen, s1)"
    by fastforce
  then have "extends inner_event s s1" by (rule extends_call_ret [rotated]) simp
  moreover have "extends inner_event s1 (set_abort_result TOI_FREEZING_FAILED s1)"
    by (rule extends_abort)
  ultimately show ?thesis using f
    by (auto simp: freeze_or_abort_def intro: extends_trans)
qed

lemma reserve_extra_pages_extends:
  assumes "reserve_extra_pages E m s = (stop, s')"
  shows "extends inner_event s s'"
proof -
  define wanted where "wanted = pagedir1_size s + extra_pd1_pages_allowance s - get_lowmem_size2 s"
  show ?thesis
  proof (cases "wanted > extra_pages_allocated s")
    case False
    with assms show ?thesis by (simp add: reserve_extra_pages_def Let_def wanted_def)
  next
    case True
    obtain got s1 where a: "suspend_allocate_extra_pagedir_memory E m wanted s = (got, s1)"
      by fastforce
    have e1: "extends inner_event s s1"
      using suspend_allocate_extra_pagedir_memory_extends [of s E m wanted] a by simp
    have e2: "extends inner_event s1 (log_event (Message ''Want extra pages for pageset1'') s1)"
      by (rule extends_log) simp
    from assms True a have "s' = s1 \<or> s' = log_event (Message ''Want extra pages for pageset1'') s1"
      by (auto simp: reserve_extra_pages_def Let_def wanted_def [symmetric] split: if_splits)
    with e1 e2 show ?thesis by (auto intro: extends_trans)
  qed
qed

lemma allocate_main_storage_extends: "extends inner_event s (allocate_main_storage E s)"
  by (simp add: allocate_main_storage_def Let_def extends_iff call_def log_event_def)

lemma allocate_header_storage_extends: "extends inner_event s (allocate_header_storage E s)"
  by (auto simp: allocate_header_storage_def Let_def extends_iff call_ret_def log_event_def
      split: prod.splits)

lemma update_image_extends: "extends inner_event s (update_image E m s)"
proof -
  define s0 where "s0 = suspend_recalculate_image_contents E False s"
  obtain stop s1 where r: "reserve_extra_pages E m s0 = (stop, s1)" by fastforce
  have e0: "extends inner_event s s0" unfolding s0_def by (rule recalc_inner_extends)
  have e1: "extends inner_event s0 s1" using r by (rule reserve_extra_pages_extends)
  show ?thesis
  proof (cases stop)
    case True
    with r have "update_image E m s = s1" by (simp add: update_image_def s0_def)
    with e0 e1 show ?thesis by (auto intro: extends_trans)
  next
    case False
    define s2 where "s2 = call Thaw_kernel_threads (thaw_kernel_threads E) s1"
    define s3 where "s3 = allocate_main_storage E s2"
    define s4 where "s4 = allocate_header_storage E s3"
    define s5 where "s5 = freeze_or_abort E s4"
    define s6 where "s6 = call Allocate_checksum_pages (allocate_checksum_pages E) s5"
    have eq: "update_image E m s = suspend_recalculate_image_contents E False s6"
      using r False by (simp add: update_image_def s0_def s6_def s5_def s4_def s3_def s2_def)
    have e2: "extends inner_event s1 s2" unfolding s2_def by (rule extends_call) simp
    have e3: "extends inner_event s2 s3" unfolding s3_def by (rule allocate_main_storage_extends)
    have e4: "extends inner_event s3 s4" unfolding s4_def by (rule allocate_header_storage_extends)
    have e5: "extends inner_event s4 s5" unfolding s5_def by (rule freeze_or_abort_extends)
    have e6: "extends inner_event s5 s6" unfolding s6_def by (rule extends_call) simp
    have e7: "extends inner_event s6 (update_image E m s)"
      unfolding eq by (rule recalc_inner_extends)
    from e0 e1 e2 e3 e4 e5 e6 e7 show ?thesis by (blast intro: extends_trans)
  qed
qed

lemma shrink_zones_extends:
  "extends inner_event s (snd (snd (shrink_zones E zi zs (aw, de, s))))"
proof (induction zs arbitrary: aw de s)
  case Nil
  show ?case by simp
next
  case (Cons pz zs)
  obtain pos z where pz: "pz = (pos, z)" by (cases pz)
  show ?case
  proof (cases "zone_idx z \<noteq> zi")
    case True
    with Cons.IH [of s aw de] show ?thesis by (simp add: pz)
  next
    case False
    define ztf where "ztf = zone_type_free_of zi aw s"
    define s1 where "s1 = call (Shrink_one_zone pos ztf) (shrink_one_zone E pos ztf) s"
    define s2 where "s2 = suspend_recalculate_image_contents E False s1"
    have e1: "extends inner_event s s1" unfolding s1_def by (rule extends_call) simp
    have e2: "extends inner_event s1 s2" unfolding s2_def by (rule recalc_inner_extends)
    have e12: "extends inner_event s s2" using e1 e2 by (rule extends_trans)
    have eq: "shrink_zones E zi (pz # zs) (aw, de, s) =
        (if zone_type_free_of zi (amount_needed True s2) s2 < 0 then (amount_needed True s2, True, s2)
         else shrink_zones E zi zs (amount_needed True s2, True, s2))"
      using False by (simp add: pz Let_def ztf_def s1_def s2_def)
    show ?thesis
      unfolding eq using e12 Cons.IH [of s2 "amount_needed True s2" True]
      by (auto intro: extends_trans)
  qed
qed

lemma shrink_zone_types_extends:
  "extends inner_event s (snd (snd (shrink_zone_types E zis (aw, de, s))))"
proof (induction zis arbitrary: aw de s)
  case Nil
  show ?case by simp
next
  case (Cons zi zis)
  show ?case
  proof (cases "zone_type_free_of zi aw s < 0")
    case True
    then show ?thesis by simp
  next
    case False
    obtain aw' de' s' where r:
      "shrink_zones E zi (zip [0 ..< length (zones (world s))] (zones (world s))) (aw, de, s)
         = (aw', de', s')"
      by (metis prod_cases3)
    have e1: "extends inner_event s s'"
      using shrink_zones_extends [of s E zi "zip [0 ..< length (zones (world s))] (zones (world s))" aw de]
      by (simp add: r)
    from False r have "shrink_zone_types E (zi # zis) (aw, de, s) =
        shrink_zone_types E zis (aw', de', s')" by simp
    with e1 Cons.IH [of s' aw' de'] show ?thesis by (auto intro: extends_trans)
  qed
qed

lemma free_caches_only_extends:
  "extends (\<lambda>e. inner_event e) s (snd (snd (free_caches_only E s)))"
proof -
  have "extends inner_event s (call Drop_pagecache (drop_pagecache E) s)"
    by (rule extends_call) simp
  then show ?thesis
    by (auto simp: free_caches_only_def Let_def intro: extends_trans recalc_inner_extends)
qed

lemma reclaim_memory_extends:
  "extends inner_event s (snd (snd (reclaim_memory E (aw, de, s))))"
proof -
  define s0 where "s0 = log_event (Prepare_status ''Seeking to free memory.'') s"
  define s1 where "s1 = call Thaw_kernel_threads (thaw_kernel_threads E) s0"
  obtain aw' de' s2 where r:
    "shrink_zone_types E [0 ..< MAX_NR_ZONES (world s1)] (aw, de, s1) = (aw', de', s2)"
    by (metis prod_cases3)
  have e0: "extends inner_event s s0" unfolding s0_def by (rule extends_log) simp
  have e1: "extends inner_event s0 s1" unfolding s1_def by (rule extends_call) simp
  have e2: "extends inner_event s1 s2"
    using shrink_zone_types_extends [of s1 E "[0 ..< MAX_NR_ZONES (world s1)]" aw de]
    by (simp add: r)
  have e3: "extends inner_event s2 (log_event Cond_pause s2)" by (rule extends_log) simp
  have e4: "extends inner_event (log_event Cond_pause s2) (freeze_or_abort E (log_event Cond_pause s2))"
    by (rule freeze_or_abort_extends)
  have eq: "snd (snd (reclaim_memory E (aw, de, s))) = freeze_or_abort E (log_event Cond_pause s2)"
    using r by (simp add: reclaim_memory_def Let_def s1_def s0_def)
  from e0 e1 e2 e3 e4 show ?thesis unfolding eq by (blast intro: extends_trans)
qed

lemma eat_memory_extends: "extends inner_event s (eat_memory E s)"
proof -
  define s1 where "s1 = suspend_recalculate_image_contents E False s"
  define aw where "aw = amount_needed True s1"
  have e1: "extends inner_event s s1" unfolding s1_def by (rule recalc_inner_extends)
  show ?thesis
  proof (cases "image_size_limit s1 = - 1 \<and> aw > 0")
    case True
    then have "eat_memory E s = set_abort_result TOI_WOULD_EAT_MEMORY s1"
      by (simp add: eat_memory_def Let_def s1_def aw_def)
    with e1 show ?thesis by (auto intro: extends_trans extends_abort)
  next
    case False
    obtain aw2 de2 s2 where a: "(if image_size_limit s1 = - 2 then free_caches_only E s1
                else (aw, False, s1)) = (aw2, de2, s2)"
      by (metis prod_cases3)
    obtain aw3 de3 s3 where b: "(if aw2 > 0 \<and> \<not> test_result_state TOI_ABORTED s2
                       \<and> image_size_limit s2 \<noteq> - 1
                    then reclaim_memory E (aw2, de2, s2)
                    else (aw2, de2, s2)) = (aw3, de3, s3)"
      by (metis prod_cases3)
    have e2: "extends inner_event s1 s2"
      using a free_caches_only_extends [of s1 E] by (auto split: if_splits)
    have e3: "extends inner_event s2 s3"
      using b reclaim_memory_extends [of s2 E aw2 de2] by (auto split: if_splits)
    define s4 where "s4 = (if de3 then suspend_recalculate_image_contents E False s3 else s3)"
    have e4: "extends inner_event s3 s4"
      by (simp add: s4_def recalc_inner_extends)
    have e5: "extends inner_event s4 (log_event Update_status s4)" by (rule extends_log) simp
    have "eat_memory E s =
        (if image_size_limit s1 = - 1 \<and> aw > 0 then set_abort_result TOI_WOULD_EAT_MEMORY s1
         else log_event Update_status s4)"
      unfolding eat_memory_def Let_def s1_def [symmetric] aw_def [symmetric] a prod.case b s4_def
      by (rule refl)
    with False have eq: "eat_memory E s = log_event Update_status s4" by auto
    from e1 e2 e3 e4 e5 show ?thesis unfolding eq by (blast intro: extends_trans)
  qed
qed


lemma new_events_trans:
  assumes "extends P s s'" and "extends Q s' s''"
  shows "new_events s s'' = new_events s s' @ new_events s' s''"
proof -
  from assms obtain es es' where "events s' = events s @ es" "events s'' = events s' @ es'"
    by (auto simp: extends_iff)
  then show ?thesis by (simp add: new_events_def)
qed

lemma extends_new_events: "extends P s s' \<Longrightarrow> list_all P (new_events s s')"
  by (simp add: extends_def)

lemma inner_no_try: "extends inner_event s s' \<Longrightarrow> tries_logged s s' = 0"
  by (auto simp: tries_logged_def extends_def list_all_iff try_event_def filter_empty_conv)

lemma inner_loop_event: "inner_event e \<Longrightarrow> loop_event e"
  by (simp add: loop_event_def)

lemma inner_no_unlink: "extends loop_event s s' \<Longrightarrow> Unlink_lru_lists \<notin> set (new_events s s')"
  by (auto simp: extends_def list_all_iff loop_event_def try_event_def)

lemma tries_logged_trans:
  assumes "extends P s s'" and "extends Q s' s''"
  shows "tries_logged s s'' = tries_logged s s' + tries_logged s' s''"
  using new_events_trans [OF assms] by (simp add: tries_logged_def)

lemma image_not_ready_extends: "extends inner_event s (snd (image_not_ready u s))"
  by (simp add: image_not_ready_def extends_iff log_event_def)

lemma image_not_ready_result:
  "toi_result (snd (image_not_ready u s)) = toi_result s"
  by (simp add: image_not_ready_def log_event_def)

lemma log_try: "extends loop_event s (log_event try_event s) \<and> tries_logged s (log_event try_event s) = 1"
  by (simp add: extends_iff log_event_def loop_event_def tries_logged_def new_events_def)

lemma prepare_loop_tries:
  "extends loop_event s (prepare_loop E m tries s) \<and>
   1 \<le> tries_logged s (prepare_loop E m tries s) \<and>
   tries_logged s (prepare_loop E m tries s) \<le> max 1 (nat (MAX_TRIES + 1 - tries))"
proof (induction E m tries s rule: prepare_loop.induct)
  case (1 E m tries s)
  define s0 where "s0 = log_event try_event s"
  define s1 where "s1 = eat_memory E s0"
  have e0: "extends loop_event s s0" and t0: "tries_logged s s0 = 1"
    unfolding s0_def using log_try by auto
  have i1: "extends inner_event s0 s1" unfolding s1_def by (rule eat_memory_extends)
  then have e1: "extends loop_event s0 s1" by (rule extends_mono [rotated]) (rule inner_loop_event)
  have e01: "extends loop_event s s1" using e0 e1 by (rule extends_trans)
  have t01: "tries_logged s s1 = 1"
    using tries_logged_trans [OF e0 i1] t0 inner_no_try [OF i1] by simp
  show ?case
  proof (cases "test_result_state TOI_ABORTED s1")
    case True
    then have "prepare_loop E m tries s = s1"
      by (subst prepare_loop.simps) (simp add: Let_def s1_def s0_def try_event_def)
    with e01 t01 show ?thesis by simp
  next
    case False
    obtain again s2 where r: "image_not_ready True (update_image E m s1) = (again, s2)"
      by fastforce
    have i2: "extends inner_event s1 s2"
      using update_image_extends [of s1 E m]
        image_not_ready_extends [of "update_image E m s1" True] r
      by (auto intro: extends_trans)
    then have e2: "extends loop_event s1 s2"
      by (rule extends_mono [rotated]) (rule inner_loop_event)
    have e02: "extends loop_event s s2" using e01 e2 by (rule extends_trans)
    have t02: "tries_logged s s2 = 1"
      using tries_logged_trans [OF e01 i2] t01 inner_no_try [OF i2] by simp
    show ?thesis
    proof (cases "again \<and> tries + 1 \<le> MAX_TRIES \<and> \<not> test_result_state TOI_ABORTED s2")
      case False
      then have "prepare_loop E m tries s = s2"
        using \<open>\<not> test_result_state TOI_ABORTED s1\<close> r
        by (subst prepare_loop.simps) (auto simp: Let_def s1_def s0_def try_event_def)
      with e02 t02 show ?thesis by simp
    next
      case True
      then have eq: "prepare_loop E m tries s = prepare_loop E m (tries + 1) s2"
        using \<open>\<not> test_result_state TOI_ABORTED s1\<close> r
        by (subst prepare_loop.simps) (simp add: Let_def s1_def s0_def try_event_def)
      have IH: "extends loop_event s2 (prepare_loop E m (tries + 1) s2) \<and>
          1 \<le> tries_logged s2 (prepare_loop E m (tries + 1) s2) \<and>
          tries_logged s2 (prepare_loop E m (tries + 1) s2)
            \<le> max 1 (nat (MAX_TRIES + 1 - (tries + 1)))"
        using "1.IH" [OF refl _ r [symmetric, unfolded s1_def s0_def try_event_def]] False True
        by (simp add: s1_def s0_def try_event_def)
      then have e3: "extends loop_event s2 (prepare_loop E m (tries + 1) s2)" by blast
      have sum: "tries_logged s (prepare_loop E m (tries + 1) s2) =
          1 + tries_logged s2 (prepare_loop E m (tries + 1) s2)"
        using tries_logged_trans [OF e02 e3] t02 by simp
      from True have "max 1 (nat (MAX_TRIES + 1 - (tries + 1))) + 1 \<le> max 1 (nat (MAX_TRIES + 1 - tries))"
        by auto
      with IH sum e02 e3 show ?thesis unfolding eq
        by (auto intro: extends_trans)
    qed
  qed
qed


lemma attempt_to_freeze_extends:
  "attempt_to_freeze E s = (r, s') \<Longrightarrow> extends inner_event s s'"
  by (auto simp: attempt_to_freeze_def extends_iff call_ret_def call_def log_event_def
      set_abort_result_def split: prod.splits if_splits)

lemma get_extra_pd1_allowance_extends:
  "extends inner_event s (get_extra_pd1_allowance E a s)"
  by (simp add: get_extra_pd1_allowance_def Let_def extends_iff call_def log_event_def)

lemma prepare_start_extends:
  assumes "prepare_start E a s = (r, s')"
  shows "extends inner_event s s'"
proof -
  define s0 where "s0 = s\<lparr>header_space_allocated := 0, main_storage_allocated := 0\<rparr>"
  obtain failed s1 where f: "attempt_to_freeze E s0 = (failed, s1)" by fastforce
  have e0: "extends inner_event s s0" by (simp add: s0_def extends_def new_events_def)
  have e1: "extends inner_event s0 s1" using f by (rule attempt_to_freeze_extends)
  define s2 where "s2 = (if extra_pd1_pages_allowance s1 = 0
                      then get_extra_pd1_allowance E a s1 else s1)"
  define s3 where "s3 = log_event Storage_available
                       (s2\<lparr>storage_available := allocator_storage_available E (world s2)\<rparr>)"
  define s4 where "s4 = set_abort_result TOI_NOSTORAGE_AVAILABLE
      (log_event (Message ''You need some storage available to be able to suspend.'') s3)"
  have e2: "extends inner_event s1 s2" by (simp add: s2_def get_extra_pd1_allowance_extends)
  have e3: "extends inner_event s2 s3" by (simp add: s3_def extends_iff log_event_def)
  have e4: "extends inner_event s3 s4"
    by (simp add: s4_def extends_iff log_event_def set_abort_result_def)
  from assms f have "s' = s1 \<or> s' = s3 \<or> s' = s4"
    by (auto simp: prepare_start_def Let_def s0_def [symmetric] s2_def [symmetric]
        s3_def [symmetric] s4_def split: if_splits)
  with e0 e1 e2 e3 e4 show ?thesis by (blast intro: extends_trans)
qed

lemma finish_prepare_cases:
  "finish_prepare E s =
     (if test_result_state TOI_ABORTED s
      then (if not_ready False s then 1 else 0, snd (image_not_ready False s))
      else if not_ready False s
      then (1, abort_suspend TOI_UNABLE_TO_PREPARE_IMAGE
                 ''Unable to successfully prepare the image.''
                 (display_stats True False (snd (image_not_ready False s))))
      else (0, log_event Cond_pause
                 (call Unlink_lru_lists (unlink_lru_lists E) (snd (image_not_ready False s)))))"
  by (simp add: finish_prepare_def image_not_ready_def test_result_state_def log_event_def)

lemma finish_prepare_unlink:
  "Unlink_lru_lists \<in> set (new_events s (snd (finish_prepare E s))) \<longleftrightarrow>
     \<not> test_result_state TOI_ABORTED s \<and> \<not> not_ready False s"
  by (simp add: finish_prepare_cases image_not_ready_def new_events_def log_event_def
      abort_suspend_def display_stats_def set_abort_result_def call_def)

lemma finish_prepare_extends: "extends (\<lambda>e. e \<noteq> try_event) s (snd (finish_prepare E s))"
  by (simp add: finish_prepare_cases image_not_ready_def extends_iff log_event_def
      abort_suspend_def display_stats_def set_abort_result_def call_def try_event_def)

text \<open>
  C7. Bounded retries and failure reporting. Let \<open>suspend_prepare_image\<close> get past the
  freeze and the storage check, and let \<open>s4\<close> be the session when the loop has ended. The
  status line of a new try was written at least once and at most \<open>MAX_TRIES = 2\<close> times.
  If no abort is flagged in \<open>s4\<close> and the image is not ready, the function returns 1
  after printing the statistics and reporting \<open>TOI_UNABLE_TO_PREPARE_IMAGE\<close>, which is
  then in the result state together with \<open>TOI_ABORTED\<close>. The LRU lists are unlinked
  exactly when no abort is flagged in \<open>s4\<close> and the image is ready, and then the function
  returns 0.
\<close>

theorem suspend_prepare_image_bounded:
  fixes E :: env and s s3 :: toi and m :: nat and a :: int
  defines "s4 \<equiv> prepare_loop E m 1 s3"
  defines "out \<equiv> suspend_prepare_image E m a s"
  assumes start: "prepare_start E a s = (0, s3)"
  shows "1 \<le> tries_logged s (snd out) \<and> tries_logged s (snd out) \<le> nat MAX_TRIES \<and>
         (if test_result_state TOI_ABORTED s4
          then snd out = snd (image_not_ready False s4)
          else if not_ready False s4
          then out = (1, abort_suspend TOI_UNABLE_TO_PREPARE_IMAGE
                           ''Unable to successfully prepare the image.''
                           (display_stats True False (snd (image_not_ready False s4)))) \<and>
               TOI_UNABLE_TO_PREPARE_IMAGE \<in> toi_result (snd out) \<and>
               TOI_ABORTED \<in> toi_result (snd out) \<and>
               Display_stats True \<in> set (new_events s (snd out))
          else out = (0, log_event Cond_pause
                           (call Unlink_lru_lists (unlink_lru_lists E)
                              (snd (image_not_ready False s4))))) \<and>
         (Unlink_lru_lists \<in> set (new_events s (snd out)) \<longleftrightarrow>
            \<not> test_result_state TOI_ABORTED s4 \<and> \<not> not_ready False s4)"
proof -
  have out: "out = finish_prepare E s4"
    using start by (simp add: out_def suspend_prepare_image_def s4_def)
  have e3: "extends inner_event s s3" using start by (rule prepare_start_extends)
  have l: "extends loop_event s3 s4" and t1: "1 \<le> tries_logged s3 s4"
    and t2: "tries_logged s3 s4 \<le> max 1 (nat (MAX_TRIES + 1 - 1))"
    unfolding s4_def using prepare_loop_tries [of s3 E m 1] by auto
  have e4: "extends loop_event s s4"
    using e3 l by (auto intro: extends_trans extends_mono [rotated] inner_loop_event)
  have f: "extends (\<lambda>e. e \<noteq> try_event) s4 (snd out)"
    unfolding out by (rule finish_prepare_extends)
  have tf: "tries_logged s4 (snd out) = 0"
    using f by (auto simp: tries_logged_def extends_def list_all_iff filter_empty_conv)
  have t34: "tries_logged s s4 = tries_logged s3 s4"
    using tries_logged_trans [OF e3 l] inner_no_try [OF e3] by simp
  have tall: "tries_logged s (snd out) = tries_logged s3 s4"
    using tries_logged_trans [OF e4 f] tf t34 by simp
  have ne: "new_events s (snd out) = new_events s s4 @ new_events s4 (snd out)"
    using e4 f by (rule new_events_trans)
  have un: "Unlink_lru_lists \<in> set (new_events s (snd out)) \<longleftrightarrow>
            \<not> test_result_state TOI_ABORTED s4 \<and> \<not> not_ready False s4"
    unfolding ne using inner_no_unlink [OF e4] finish_prepare_unlink [of s4 E]
    by (simp add: out)
  have ds: "Display_stats True \<in> set (new_events s (snd out))"
    if "\<not> test_result_state TOI_ABORTED s4" "not_ready False s4"
    unfolding ne using that
    by (simp add: out finish_prepare_cases image_not_ready_def new_events_def log_event_def
        abort_suspend_def display_stats_def set_abort_result_def)
  show ?thesis
    using t1 t2 tall un ds
    by (auto simp: out finish_prepare_cases MAX_TRIES_def abort_suspend_def
        set_abort_result_def log_event_def)
qed

lemmas eval_defs =
  bare_toi_def simple_toi_def simple_world_def idle_env_def
  prepare_start_def attempt_to_freeze_def call_ret_def call_def log_event_def set_abort_result_def
  get_extra_pd1_allowance_def Let_def

lemma start_bare: "fst (prepare_start idle_env 100 bare_toi) = 0"
  by (simp add: eval_defs)

lemmas eval_recalc =
  suspend_recalculate_image_contents_def suspend_mark_pages_for_pageset2_def
  test_action_state_def test_result_state_def pageset2_full_def needs_attention_def
  flag_image_pages_def generate_free_page_map_def display_stats_def

lemma recalc_bare:
  "pagedir1_size (suspend_recalculate_image_contents idle_env False bare_toi) = 0"
  by (simp add: eval_defs eval_recalc)

lemmas eval_amount =
  amount_needed_def any_to_free_def highpages_ps1_to_free_def lowpages_ps1_to_free_def
  real_nr_free_high_pages_def real_nr_free_low_pages_def real_nr_free_pages_def
  main_storage_needed_def current_image_size_def get_lowmem_size1_def get_lowmem_size2_def
  DIV_ROUND_UP_def DIV_ROUND_UP_int_def c_int_def c_div_def header_storage_needed_def
  not_ready_def image_not_ready_def

lemma amount_bare:
  "amount_needed True (suspend_recalculate_image_contents idle_env False bare_toi) = 1"
  by (simp add: eval_defs eval_recalc eval_amount)




theorem suspend_prepare_image_bounded_witness:
  "fst (prepare_start idle_env 100 bare_toi) = 0 \<and>
   1 \<le> tries_logged bare_toi (snd (suspend_prepare_image idle_env 11 100 bare_toi)) \<and>
   tries_logged bare_toi (snd (suspend_prepare_image idle_env 11 100 bare_toi)) \<le> 2 \<and>
   (Unlink_lru_lists \<in> set (new_events bare_toi (snd (suspend_prepare_image idle_env 11 100 bare_toi)))
      \<longleftrightarrow> \<not> test_result_state TOI_ABORTED
                (prepare_loop idle_env 11 1 (snd (prepare_start idle_env 100 bare_toi))) \<and>
           \<not> not_ready False (prepare_loop idle_env 11 1 (snd (prepare_start idle_env 100 bare_toi))))"
proof -
  have st: "prepare_start idle_env 100 bare_toi = (0, snd (prepare_start idle_env 100 bare_toi))"
    using start_bare by (metis prod.collapse)
  from suspend_prepare_image_bounded [OF st, of 11] start_bare show ?thesis
    by (simp add: MAX_TRIES_def)
qed

text \<open>
  C5, as the code has it. \<open>image_not_ready\<close> returns false exactly when the amount needed
  is not positive, the header storage allocated is at least the header storage needed,
  and the main storage allocated is at least the main storage needed with the expected
  compression ratio applied. The loop goes round again while \<open>image_not_ready(1)\<close> holds,
  which counts the user's image size limit in the amount needed, the tries are not used
  up and no abort is flagged. The result of \<open>suspend_prepare_image\<close> past the freeze and
  the storage check is \<open>image_not_ready(0)\<close>, in which the image size limit is not
  counted.
\<close>

theorem readiness_condition:
  "(\<not> not_ready use_limit s \<longleftrightarrow>
      amount_needed use_limit s \<le> 0 \<and>
      header_storage_needed s \<le> header_space_allocated s \<and>
      main_storage_needed True True s \<le> main_storage_allocated s) \<and>
   fst (image_not_ready use_limit s) = not_ready use_limit s \<and>
   prepare_loop E m tries s =
     (let s1 = eat_memory E (log_event (Prepare_status ''Preparing Image. Try'') s) in
        if test_result_state TOI_ABORTED s1 then s1
        else if not_ready True (update_image E m s1) \<and> tries + 1 \<le> MAX_TRIES \<and>
                \<not> test_result_state TOI_ABORTED (update_image E m s1)
             then prepare_loop E m (tries + 1) (snd (image_not_ready True (update_image E m s1)))
             else snd (image_not_ready True (update_image E m s1))) \<and>
   fst (finish_prepare E s) = (if not_ready False s then 1 else 0) \<and>
   (if fst (prepare_start E a s) = 0
    then fst (suspend_prepare_image E m a s) =
           (if not_ready False (prepare_loop E m 1 (snd (prepare_start E a s))) then 1 else 0)
    else fst (suspend_prepare_image E m a s) = 1)"
proof -
  have a: "\<not> not_ready use_limit s \<longleftrightarrow>
      amount_needed use_limit s \<le> 0 \<and>
      header_storage_needed s \<le> header_space_allocated s \<and>
      main_storage_needed True True s \<le> main_storage_allocated s"
    by (auto simp: not_ready_def)
  have b: "fst (image_not_ready use_limit s) = not_ready use_limit s"
    by (simp add: image_not_ready_def)
  have c: "prepare_loop E m tries s =
     (let s1 = eat_memory E (log_event (Prepare_status ''Preparing Image. Try'') s) in
        if test_result_state TOI_ABORTED s1 then s1
        else if not_ready True (update_image E m s1) \<and> tries + 1 \<le> MAX_TRIES \<and>
                \<not> test_result_state TOI_ABORTED (update_image E m s1)
             then prepare_loop E m (tries + 1) (snd (image_not_ready True (update_image E m s1)))
             else snd (image_not_ready True (update_image E m s1)))"
    by (subst prepare_loop.simps)
      (simp add: Let_def image_not_ready_def test_result_state_def log_event_def)
  have d: "fst (finish_prepare E s) = (if not_ready False s then 1 else 0)" for s
    by (simp add: finish_prepare_cases)
  have e: "(if fst (prepare_start E a s) = 0
    then fst (suspend_prepare_image E m a s) =
           (if not_ready False (prepare_loop E m 1 (snd (prepare_start E a s))) then 1 else 0)
    else fst (suspend_prepare_image E m a s) = 1)"
    by (simp add: suspend_prepare_image_def d split: prod.splits)
  from a b c d e show ?thesis by blast
qed

text \<open>
  The claim C5 as stated fails where only the image size limit is exceeded: with 300
  pages in the image and a limit of 1 MB, that is 256 pages, the amount needed with the
  limit is 44, and yet the final check finds the image ready, returns 0 and unlinks the
  LRU lists.
\<close>

theorem readiness_condition_counterexample:
  "amount_needed True capped_toi = 44 \<and>
   header_storage_needed capped_toi \<le> header_space_allocated capped_toi \<and>
   main_storage_needed True True capped_toi \<le> main_storage_allocated capped_toi \<and>
   \<not> not_ready False capped_toi \<and>
   fst (finish_prepare idle_env capped_toi) = 0 \<and>
   Unlink_lru_lists \<in> set (events (snd (finish_prepare idle_env capped_toi)))"
  by (simp add: capped_toi_def capped_zone_def simple_toi_def simple_world_def simple_zone_def
      idle_env_def eval_amount zone_free_count_def finish_prepare_def test_result_state_def
      log_event_def call_def)


theorem readiness_condition_witness:
  "not_ready True capped_toi \<and> \<not> not_ready False capped_toi \<and>
   fst (image_not_ready True capped_toi) \<and>
   fst (finish_prepare idle_env capped_toi) = 0 \<and>
   fst (prepare_start idle_env 100 bare_toi) = 0 \<and>
   fst (suspend_prepare_image idle_env 11 100 bare_toi) =
     (if not_ready False (prepare_loop idle_env 11 1 (snd (prepare_start idle_env 100 bare_toi)))
      then 1 else 0)"
proof -
  have n: "not_ready True capped_toi" "\<not> not_ready False capped_toi"
    by (simp_all add: capped_toi_def capped_zone_def simple_toi_def simple_world_def
        simple_zone_def eval_amount zone_free_count_def)
  from readiness_condition [of True capped_toi idle_env 11 1 100]
    readiness_condition [of False capped_toi idle_env 11 1 100]
    readiness_condition [of False bare_toi idle_env 11 1 100] n start_bare
  show ?thesis by simp
qed


section \<open>Properties of the atomic copy\<close>

subsection \<open>The walk over a bitmap\<close>

lemma find_filter:
  "find P xs = (case filter P xs of [] \<Rightarrow> None | x # _ \<Rightarrow> Some x)"
  by (induction xs) auto

lemma filter_upt_first:
  "filter P [a ..< n] = p # rest \<Longrightarrow> a \<le> p \<and> p < n \<and> filter P [Suc p ..< n] = rest"
proof (induction "n - a" arbitrary: a)
  case 0
  then show ?case by simp
next
  case (Suc k)
  then have an: "a < n" by simp
  then have cons: "[a ..< n] = a # [Suc a ..< n]" by (simp add: upt_conv_Cons)
  show ?case
  proof (cases "P a")
    case True
    with Suc.prems cons an show ?thesis by auto
  next
    case False
    with Suc.prems cons have "filter P [Suc a ..< n] = p # rest" by simp
    moreover from Suc.hyps(2) have "k = n - Suc a" by simp
    ultimately have "Suc a \<le> p \<and> p < n \<and> filter P [Suc p ..< n] = rest"
      by (rule Suc.hyps(1) [rotated])
    then show ?thesis by simp
  qed
qed

lemma filter_upt_drop:
  "i < length (filter P [a ..< n]) \<Longrightarrow>
   filter P [Suc (filter P [a ..< n] ! i) ..< n] = drop (Suc i) (filter P [a ..< n])
   \<and> filter P [a ..< n] ! i < n"
proof (induction i arbitrary: a)
  case 0
  then obtain p rest where eq: "filter P [a ..< n] = p # rest"
    by (cases "filter P [a ..< n]") auto
  from filter_upt_first [OF eq] show ?case by (simp add: eq)
next
  case (Suc i)
  then obtain p rest where eq: "filter P [a ..< n] = p # rest"
    by (cases "filter P [a ..< n]") auto
  from filter_upt_first [OF eq] have rest: "filter P [Suc p ..< n] = rest" by simp
  from Suc.prems eq have "i < length (filter P [Suc p ..< n])" by (simp add: rest)
  from Suc.IH [OF this] show ?case by (simp add: eq rest)
qed

lemma nth_set_pfn_le:
  "i < length (set_pfns maxp bm) \<Longrightarrow> nth_set_pfn maxp bm i \<le> maxp"
  using filter_upt_drop [of i bm 0 "Suc maxp"]
  by (simp add: nth_set_pfn_def set_pfns_def del: upt_Suc)

lemma get_next_bit_on_first:
  "get_next_bit_on maxp bm (maxp + 1) = nth_set_pfn maxp bm 0"
  by (simp add: get_next_bit_on_def nth_set_pfn_def set_pfns_def find_filter
      split: list.splits del: upt_Suc)

lemma get_next_bit_on_step:
  assumes "i < length (set_pfns maxp bm)"
  shows "get_next_bit_on maxp bm (nth_set_pfn maxp bm i) = nth_set_pfn maxp bm (Suc i)"
proof -
  let ?xs = "filter bm [0 ..< Suc maxp]"
  from assms have i: "i < length ?xs" by (simp add: set_pfns_def del: upt_Suc)
  from filter_upt_drop [OF i]
  have d: "filter bm [Suc (?xs ! i) ..< Suc maxp] = drop (Suc i) ?xs" and lt: "?xs ! i < Suc maxp"
    by auto
  have c: "nth_set_pfn maxp bm i = ?xs ! i"
    using i by (simp add: nth_set_pfn_def set_pfns_def del: upt_Suc)
  have ne: "?xs ! i \<noteq> Suc maxp" using lt by simp
  have g: "get_next_bit_on maxp bm (?xs ! i) =
      (case drop (Suc i) ?xs of [] \<Rightarrow> Suc maxp | x # _ \<Rightarrow> x)"
    using ne by (simp add: get_next_bit_on_def find_filter d split: list.splits del: upt_Suc)
  show ?thesis
  proof (cases "Suc i < length ?xs")
    case True
    then have "drop (Suc i) ?xs = ?xs ! Suc i # drop (Suc (Suc i)) ?xs"
      by (simp only: Cons_nth_drop_Suc)
    with True show ?thesis
      unfolding c g by (simp add: nth_set_pfn_def set_pfns_def del: upt_Suc)
  next
    case False
    then have "drop (Suc i) ?xs = []" by simp
    with False show ?thesis
      unfolding c g by (simp add: nth_set_pfn_def set_pfns_def del: upt_Suc)
  qed
qed

lemma set_pfns_distinct: "distinct (set_pfns maxp bm)"
  by (simp add: set_pfns_def)

subsection \<open>Copying a page\<close>

lemma copy_words_effect:
  "copy_words (int k - 1) a b m = m(b := (\<lambda>w. if w < k then m a w else m b w))"
proof (induction k arbitrary: m)
  case 0
  show ?case by (subst copy_words.simps) (simp add: fun_eq_iff)
next
  case (Suc k)
  let ?m1 = "m(b := (m b)(k := m a k))"
  have "copy_words (int (Suc k) - 1) a b m = copy_words (int k - 1) a b ?m1"
    by (subst copy_words.simps) simp
  also have "\<dots> = ?m1(b := (\<lambda>w. if w < k then ?m1 a w else ?m1 b w))"
    by (rule Suc.IH)
  also have "\<dots> = m(b := (\<lambda>w. if w < Suc k then m a w else m b w))"
    by (auto simp: fun_eq_iff less_Suc_eq)
  finally show ?case .
qed

lemma copy_words_page:
  "copy_words (wpp - 1) a b m = copy_page (nat wpp) (a, b) m"
proof (cases "0 \<le> wpp")
  case True
  then have "wpp = int (nat wpp)" by simp
  then show ?thesis using copy_words_effect [of "nat wpp" a b m]
    by (simp add: copy_page_def)
next
  case False
  then have "copy_words (wpp - 1) a b m = m" by (subst copy_words.simps) simp
  with False show ?thesis by (simp add: copy_page_def fun_eq_iff)
qed


lemma copy_pages_run:
  assumes "0 \<le> i" and "i \<le> n"
    and "nat n \<le> length (set_pfns (max_pfn (world s)) (pageset1_map s))"
    and "nat n \<le> length (set_pfns (max_pfn (world s)) (pageset1_copy_map s))"
  shows "copy_pages n i
           (nth_set_pfn (max_pfn (world s)) (pageset1_map s) (nat i))
           (nth_set_pfn (max_pfn (world s)) (pageset1_copy_map s) (nat i)) s =
         s\<lparr>memory :=
              fold (copy_page (nat (words_per_page (world s))))
                (drop (nat i) (zip (take (nat n) (set_pfns (max_pfn (world s)) (pageset1_map s)))
                                   (take (nat n) (set_pfns (max_pfn (world s)) (pageset1_copy_map s)))))
                (memory s),
           events := events s @
              map (\<lambda>(a, b). Copy_page a b)
                (drop (nat i) (zip (take (nat n) (set_pfns (max_pfn (world s)) (pageset1_map s)))
                                   (take (nat n) (set_pfns (max_pfn (world s)) (pageset1_copy_map s)))))\<rparr>"
  using assms
proof (induction "nat (n - i)" arbitrary: i s)
  case 0
  then have "i = n" by simp
  then have "copy_pages n i
           (nth_set_pfn (max_pfn (world s)) (pageset1_map s) (nat i))
           (nth_set_pfn (max_pfn (world s)) (pageset1_copy_map s) (nat i)) s = s"
    by (subst copy_pages.simps) simp
  with \<open>i = n\<close> show ?case by simp
next
  case (Suc k)
  let ?maxp = "max_pfn (world s)"
  let ?S = "set_pfns ?maxp (pageset1_map s)"
  let ?D = "set_pfns ?maxp (pageset1_copy_map s)"
  let ?ps = "zip (take (nat n) ?S) (take (nat n) ?D)"
  let ?W = "nat (words_per_page (world s))"
  from Suc.hyps(2) have lt: "i < n" by simp
  with Suc.prems have iS: "nat i < length ?S" and iD: "nat i < length ?D" by auto
  have a: "nth_set_pfn ?maxp (pageset1_map s) (nat i) = ?S ! nat i"
    and b: "nth_set_pfn ?maxp (pageset1_copy_map s) (nat i) = ?D ! nat i"
    using iS iD by (simp_all add: nth_set_pfn_def)
  define s1 where "s1 = s\<lparr>memory := copy_page ?W (?S ! nat i, ?D ! nat i) (memory s),
                           events := events s @ [Copy_page (?S ! nat i) (?D ! nat i)]\<rparr>"
  have step: "copy_pages n i (?S ! nat i) (?D ! nat i) s =
      copy_pages n (i + 1)
        (nth_set_pfn ?maxp (pageset1_map s) (nat (i + 1)))
        (nth_set_pfn ?maxp (pageset1_copy_map s) (nat (i + 1))) s1"
    using lt Suc.prems(1) get_next_bit_on_step [OF iS] get_next_bit_on_step [OF iD]
    by (subst copy_pages.simps)
      (simp add: Let_def log_event_def copy_words_page s1_def a b nat_add_distrib)
  have same: "world s1 = world s" "pageset1_map s1 = pageset1_map s"
    "pageset1_copy_map s1 = pageset1_copy_map s"
    by (simp_all add: s1_def)
  have k: "k = nat (n - (i + 1))" using Suc.hyps(2) by simp
  have IH: "copy_pages n (i + 1)
        (nth_set_pfn ?maxp (pageset1_map s) (nat (i + 1)))
        (nth_set_pfn ?maxp (pageset1_copy_map s) (nat (i + 1))) s1 =
      s1\<lparr>memory := fold (copy_page ?W) (drop (nat (i + 1)) ?ps) (memory s1),
          events := events s1 @ map (\<lambda>(a, b). Copy_page a b) (drop (nat (i + 1)) ?ps)\<rparr>"
    using Suc.hyps(1) [OF k, of s1] Suc.prems lt by (simp add: same)
  have len: "nat i < length ?ps" using lt Suc.prems by simp
  have cons: "drop (nat i) ?ps = (?S ! nat i, ?D ! nat i) # drop (nat (i + 1)) ?ps"
    using Cons_nth_drop_Suc [OF len] Suc.prems(1) lt iS iD
    by (simp add: nat_add_distrib)
  show ?case
    unfolding a b step IH cons by (simp add: s1_def)
qed

lemma suspend_copy_pageset1_run:
  assumes "nat (pagedir1_size s) \<le> length (set_pfns (max_pfn (world s)) (pageset1_map s))"
    and "nat (pagedir1_size s) \<le> length (set_pfns (max_pfn (world s)) (pageset1_copy_map s))"
  shows "suspend_copy_pageset1 s =
         s\<lparr>memory :=
              fold (copy_page (nat (words_per_page (world s))))
                (zip (take (nat (pagedir1_size s)) (set_pfns (max_pfn (world s)) (pageset1_map s)))
                     (take (nat (pagedir1_size s)) (set_pfns (max_pfn (world s)) (pageset1_copy_map s))))
                (memory s),
           events := events s @
              map (\<lambda>(a, b). Copy_page a b)
                (zip (take (nat (pagedir1_size s)) (set_pfns (max_pfn (world s)) (pageset1_map s)))
                     (take (nat (pagedir1_size s)) (set_pfns (max_pfn (world s)) (pageset1_copy_map s))))\<rparr>"
proof (cases "0 \<le> pagedir1_size s")
  case True
  from copy_pages_run [of 0 "pagedir1_size s" s, OF _ True assms]
  show ?thesis unfolding suspend_copy_pageset1_def get_next_bit_on_first by simp
next
  case False
  then have "suspend_copy_pageset1 s = s"
    unfolding suspend_copy_pageset1_def by (subst copy_pages.simps) simp
  with False show ?thesis by simp
qed

lemma fold_copy_page_frame:
  "b \<notin> snd ` set ps \<Longrightarrow> fold (copy_page k) ps m b = m b"
  by (induction ps arbitrary: m) (auto simp: copy_page_def)

lemma fold_copy_page_nth:
  assumes "distinct (map snd ps)" and "i < length ps" and "w < k"
  shows "fold (copy_page k) ps m (snd (ps ! i)) w = fold (copy_page k) (take i ps) m (fst (ps ! i)) w"
proof -
  have split: "ps = take i ps @ ps ! i # drop (Suc i) ps"
    using assms(2) by (simp add: id_take_nth_drop)
  have "distinct (map snd (take i ps @ ps ! i # drop (Suc i) ps))"
    using assms(1) split by simp
  then have notin: "snd (ps ! i) \<notin> snd ` set (drop (Suc i) ps)" by auto
  let ?m = "fold (copy_page k) (take i ps) m"
  have "fold (copy_page k) ps m = fold (copy_page k) (drop (Suc i) ps) (copy_page k (ps ! i) ?m)"
    by (subst split) simp
  then have "fold (copy_page k) ps m (snd (ps ! i)) = copy_page k (ps ! i) ?m (snd (ps ! i))"
    using fold_copy_page_frame [OF notin] by simp
  then show ?thesis using assms(3) by (simp add: copy_page_def split: prod.splits)
qed

text \<open>
  Claim C1. Let \<open>S\<close> and \<open>D\<close> be the set page frames of \<^verbatim>\<open>pageset1_map\<close> and of
  \<^verbatim>\<open>pageset1_copy_map\<close> in order, and let each have at least \<^verbatim>\<open>pagedir1.size\<close> of them.
  Then \<open>suspend_copy_pageset1\<close> copies, for each \<open>i\<close> below \<^verbatim>\<open>pagedir1.size\<close> and in this
  order, page frame \<open>S ! i\<close> to page frame \<open>D ! i\<close> and nothing else; the sources are
  pairwise distinct and so are the destinations; after the run every word of the
  destination \<open>D ! i\<close> is the word the source \<open>S ! i\<close> held when it was copied, that is
  after the first \<open>i\<close> copies, and it is the word the source held before the run when no
  source is a destination; pages that are no destination, and words beyond a page, are
  left as they were.
\<close>

theorem suspend_copy_pageset1_fidelity:
  fixes s :: toi
  defines "S \<equiv> set_pfns (max_pfn (world s)) (pageset1_map s)"
    and "D \<equiv> set_pfns (max_pfn (world s)) (pageset1_copy_map s)"
    and "n \<equiv> nat (pagedir1_size s)"
    and "W \<equiv> nat (words_per_page (world s))"
    and "s' \<equiv> suspend_copy_pageset1 s"
  assumes "pagedir1_size s \<le> int (length S)" and "pagedir1_size s \<le> int (length D)"
  shows "new_events s s' = map (\<lambda>(a, b). Copy_page a b) (zip (take n S) (take n D))
       \<and> distinct (take n S) \<and> distinct (take n D)
       \<and> (\<forall>i<n. \<forall>w<W. memory s' (D ! i) w =
             memory (suspend_copy_pageset1 (s\<lparr>pagedir1_size := int i\<rparr>)) (S ! i) w)
       \<and> (set (take n S) \<inter> set (take n D) = {} \<longrightarrow>
             (\<forall>i<n. \<forall>w<W. memory s' (D ! i) w = memory s (S ! i) w))
       \<and> (\<forall>p. p \<notin> set (take n D) \<longrightarrow> memory s' p = memory s p)
       \<and> (\<forall>p w. W \<le> w \<longrightarrow> memory s' p w = memory s p w)"
proof -
  let ?ps = "zip (take n S) (take n D)"
  have nS: "n \<le> length S" and nD: "n \<le> length D" using assms by auto
  have run: "s' = s\<lparr>memory := fold (copy_page W) ?ps (memory s),
                     events := events s @ map (\<lambda>(a, b). Copy_page a b) ?ps\<rparr>"
    using suspend_copy_pageset1_run [of s] nS nD
    unfolding s'_def S_def D_def n_def W_def by simp
  have mem: "memory s' = fold (copy_page W) ?ps (memory s)" by (simp add: run)
  have len: "length ?ps = n" using nS nD by simp
  have snd_ps: "map snd ?ps = take n D" using nS nD by (simp add: map_snd_zip_take)
  have fst_ps: "map fst ?ps = take n S" using nS nD by (simp add: map_fst_zip_take)
  have dS: "distinct (take n S)" and dD: "distinct (take n D)"
    unfolding S_def D_def by (simp_all add: set_pfns_distinct)
  have ev: "new_events s s' = map (\<lambda>(a, b). Copy_page a b) ?ps"
    by (simp add: run new_events_def)
  have before: "memory (suspend_copy_pageset1 (s\<lparr>pagedir1_size := int i\<rparr>)) =
                fold (copy_page W) (take i ?ps) (memory s)" if "i < n" for i
  proof -
    have "take i ?ps = zip (take i S) (take i D)"
      using that by (simp add: take_zip min_def)
    moreover have "memory (suspend_copy_pageset1 (s\<lparr>pagedir1_size := int i\<rparr>)) =
        fold (copy_page W) (zip (take i S) (take i D)) (memory s)"
      using suspend_copy_pageset1_run [of "s\<lparr>pagedir1_size := int i\<rparr>"] that nS nD
      unfolding S_def D_def W_def by simp
    ultimately show ?thesis by simp
  qed
  have at: "memory s' (D ! i) w = fold (copy_page W) (take i ?ps) (memory s) (S ! i) w"
    if "i < n" "w < W" for i w
  proof -
    have "i < length ?ps" using that len by simp
    from fold_copy_page_nth [of ?ps i w W "memory s", OF _ this that(2)] snd_ps dD
    show ?thesis using that nS nD by (simp add: mem)
  qed
  have fid: "\<forall>i<n. \<forall>w<W. memory s' (D ! i) w =
             memory (suspend_copy_pageset1 (s\<lparr>pagedir1_size := int i\<rparr>)) (S ! i) w"
    using at before by simp
  have frame: "\<forall>p. p \<notin> set (take n D) \<longrightarrow> memory s' p = memory s p"
  proof (intro allI impI)
    fix p assume "p \<notin> set (take n D)"
    then have "p \<notin> snd ` set ?ps" using snd_ps by (metis set_map)
    then show "memory s' p = memory s p" by (simp add: mem fold_copy_page_frame)
  qed
  have disj: "set (take n S) \<inter> set (take n D) = {} \<longrightarrow>
             (\<forall>i<n. \<forall>w<W. memory s' (D ! i) w = memory s (S ! i) w)"
  proof (intro impI allI)
    fix i w assume d: "set (take n S) \<inter> set (take n D) = {}" and i: "i < n" and w: "w < W"
    have "S ! i \<in> set (take n S)" using i nS by (metis in_set_conv_nth length_take min.absorb2 nth_take)
    then have "S ! i \<notin> set (take n D)" using d by auto
    moreover have "set (take i (take n D)) \<subseteq> set (take n D)" by (rule set_take_subset)
    ultimately have "S ! i \<notin> snd ` set (take i ?ps)"
      using snd_ps by (metis (no_types, lifting) set_map subsetD take_map)
    then have "fold (copy_page W) (take i ?ps) (memory s) (S ! i) = memory s (S ! i)"
      by (rule fold_copy_page_frame)
    then show "memory s' (D ! i) w = memory s (S ! i) w" using at [OF i w] by simp
  qed
  have high: "\<forall>p w. W \<le> w \<longrightarrow> memory s' p w = memory s p w"
  proof -
    have "W \<le> w \<Longrightarrow> fold (copy_page W) ps m p w = m p w" for ps m p w
      by (induction ps arbitrary: m) (auto simp: copy_page_def)
    then show ?thesis by (simp add: mem)
  qed
  from ev dS dD fid disj frame high show ?thesis by blast
qed

lemma set_pfns_copy_toi:
  "set_pfns (max_pfn (world copy_toi)) (pageset1_map copy_toi) = [1, 3, 4]"
  "set_pfns (max_pfn (world copy_toi)) (pageset1_copy_map copy_toi) = [2, 5, 6, 7]"
  by (simp_all add: copy_toi_def simple_toi_def simple_world_def set_pfns_def upt_rec [of _ "numeral k" for k]
      upt_rec [of _ "Suc k" for k])

theorem suspend_copy_pageset1_fidelity_witness:
  "new_events copy_toi (suspend_copy_pageset1 copy_toi) =
     [Copy_page 1 2, Copy_page 3 5, Copy_page 4 6]
   \<and> memory (suspend_copy_pageset1 copy_toi) 2 0 = 10
   \<and> memory (suspend_copy_pageset1 copy_toi) 2 3 = 13
   \<and> memory (suspend_copy_pageset1 copy_toi) 5 1 = 31
   \<and> memory (suspend_copy_pageset1 copy_toi) 6 3 = 43
   \<and> memory (suspend_copy_pageset1 copy_toi) 7 2 = 72"
proof -
  have W: "nat (words_per_page (world copy_toi)) = 4"
    by (simp add: copy_toi_def simple_toi_def simple_world_def words_per_page_def c_div_def)
  have n: "pagedir1_size copy_toi = 3" by (simp add: copy_toi_def)
  have hyp: "pagedir1_size copy_toi
               \<le> int (length (set_pfns (max_pfn (world copy_toi)) (pageset1_map copy_toi)))"
    "pagedir1_size copy_toi
               \<le> int (length (set_pfns (max_pfn (world copy_toi)) (pageset1_copy_map copy_toi)))"
    by (simp_all add: set_pfns_copy_toi n)
  note t = suspend_copy_pageset1_fidelity [OF hyp, unfolded set_pfns_copy_toi W n]
  have ev: "new_events copy_toi (suspend_copy_pageset1 copy_toi) =
     [Copy_page 1 2, Copy_page 3 5, Copy_page 4 6]"
    using t [THEN conjunct1] by (simp add: numeral_3_eq_3)
  have disj: "\<forall>i<3. \<forall>w<4. memory (suspend_copy_pageset1 copy_toi) ([2, 5, 6, 7] ! i) w =
                memory copy_toi ([1, 3, 4] ! i) w"
    using t [THEN conjunct2, THEN conjunct2, THEN conjunct2, THEN conjunct2, THEN conjunct1]
    by (simp add: numeral_3_eq_3)
  have frame: "\<forall>p. p \<notin> set (take 3 [2, 5, 6, 7]) \<longrightarrow>
                memory (suspend_copy_pageset1 copy_toi) p = memory copy_toi p"
    using t [THEN conjunct2, THEN conjunct2, THEN conjunct2, THEN conjunct2, THEN conjunct2,
        THEN conjunct1]
    by simp
  have m: "memory copy_toi p w = 10 * p + w" for p w
    by (simp add: copy_toi_def simple_toi_def)
  have "memory (suspend_copy_pageset1 copy_toi) 2 0 = 10"
    using disj [rule_format, of 0 0] by (simp add: m)
  moreover have "memory (suspend_copy_pageset1 copy_toi) 2 3 = 13"
    using disj [rule_format, of 0 3] by (simp add: m)
  moreover have "memory (suspend_copy_pageset1 copy_toi) 5 1 = 31"
    using disj [rule_format, of 1 1] by (simp add: m)
  moreover have "memory (suspend_copy_pageset1 copy_toi) 6 3 = 43"
    using disj [rule_format, of 2 3] by (simp add: m)
  moreover have "memory (suspend_copy_pageset1 copy_toi) 7 2 = 72"
    using frame [rule_format, of 7] by (simp add: m numeral_3_eq_3)
  ultimately show ?thesis using ev by simp
qed

subsection \<open>After the context is saved\<close>

lemma flag_page_memory: "memory (flag_page z p s) = memory s"
  by (simp add: flag_page_def Let_def)

lemma flag_zone_from_memory: "memory (flag_zone_from z loop s) = memory s"
proof (induction z loop s rule: flag_zone_from.induct)
  case (1 z loop s)
  show ?case
    apply (subst flag_zone_from.simps)
    using 1 by (simp add: Let_def flag_page_memory)
qed

lemma fold_flag_zone_memory: "memory (fold flag_zone zs s) = memory s"
  by (induction zs arbitrary: s) (simp_all add: flag_zone_def flag_zone_from_memory)

lemma recalculate_atomic_memory:
  "memory (suspend_recalculate_image_contents E True s) = memory s"
  by (simp add: suspend_recalculate_image_contents_def flag_image_pages_def Let_def
      fold_flag_zone_memory generate_free_page_map_def)

lemma recalc_not_copy: "recalc_event e \<Longrightarrow> \<not> copy_event e"
  by (cases e) simp_all

text \<open>
  Claim C2. In \<open>suspend_post_context_save\<close>, let \<open>s2\<close> be the session once the checksums
  are checked and their pages freed, \<open>s3\<close> the session once pageset1 is measured again, and
  \<open>grown\<close> the number of pages by which \<^verbatim>\<open>pagedir1.size\<close> then exceeds its value on entry. If
  \<open>grown\<close> is more than \<^verbatim>\<open>extra_pd1_pages_allowance\<close>, the function returns -1 with
  \<^verbatim>\<open>TOI_EXTRA_PAGES_ALLOW_TOO_SMALL\<close> and \<^verbatim>\<open>TOI_ABORTED\<close> set, the memory is as it was and no
  page was copied. Otherwise it returns 0, and the session is the one \<open>suspend_copy_pageset1\<close>
  leaves, unless \<^verbatim>\<open>TOI_TEST_FILTER_SPEED\<close> or \<^verbatim>\<open>TOI_TEST_BIO\<close> is set, in which case nothing
  is copied.
\<close>

theorem post_context_save_allowance:
  fixes E :: env and s :: toi
  defines "s2 \<equiv> call Free_checksum_pages (free_checksum_pages E)
                   (log_event Calculate_check_checksums (calculate_check_checksums E s))"
  defines "s3 \<equiv> suspend_recalculate_image_contents E True s2"
  defines "grown \<equiv> pagedir1_size s3 - pagedir1_size s"
  defines "r \<equiv> suspend_post_context_save E s"
  shows "if extra_pd1_pages_allowance s3 < grown
         then fst r = - 1
            \<and> test_result_state TOI_EXTRA_PAGES_ALLOW_TOO_SMALL (snd r)
            \<and> test_result_state TOI_ABORTED (snd r)
            \<and> extra_pd1_pages_used (snd r) = grown
            \<and> memory (snd r) = memory s2
            \<and> filter copy_event (new_events s2 (snd r)) = []
         else fst r = 0
            \<and> snd r = (if test_action_state TOI_TEST_FILTER_SPEED s3 \<or> test_action_state TOI_TEST_BIO s3
                       then s3\<lparr>extra_pd1_pages_used := grown\<rparr>
                       else suspend_copy_pageset1 (s3\<lparr>extra_pd1_pages_used := grown\<rparr>))"
proof (cases "extra_pd1_pages_allowance s3 < grown")
  case True
  have r: "r = (- 1, set_abort_result TOI_EXTRA_PAGES_ALLOW_TOO_SMALL
                      (log_event (Message ''Pageset1 has grown'')
                         (s3\<lparr>extra_pd1_pages_used := grown\<rparr>)))"
    using True
    unfolding r_def suspend_post_context_save_def Let_def s3_def s2_def grown_def by simp
  have "extends recalc_event s2 s3"
    unfolding s3_def by (rule suspend_recalculate_image_contents_extends)
  then obtain es where es: "events s3 = events s2 @ es" "list_all recalc_event es"
    by (auto simp: extends_iff)
  have "new_events s2 (snd r) = es @ [Message ''Pageset1 has grown'']"
    by (simp add: r new_events_def set_abort_result_def log_event_def es)
  moreover have "filter copy_event es = []"
    using es(2) by (auto simp: filter_empty_conv list_all_iff recalc_not_copy)
  ultimately have quiet: "filter copy_event (new_events s2 (snd r)) = []" by simp
  have mem: "memory (snd r) = memory s2"
    by (simp add: r set_abort_result_def log_event_def s3_def recalculate_atomic_memory)
  show ?thesis
    using True quiet mem
    by (simp add: r test_result_state_def set_abort_result_def log_event_def)
next
  case False
  then show ?thesis
    unfolding r_def suspend_post_context_save_def Let_def s3_def s2_def grown_def
      test_action_state_def
    by simp
qed

lemma recalc_copy_toi:
  "pagedir1_size (suspend_recalculate_image_contents idle_env True
      (call Free_checksum_pages (free_checksum_pages idle_env)
         (log_event Calculate_check_checksums
            (calculate_check_checksums idle_env (copy_toi\<lparr>extra_pd1_pages_allowance := a\<rparr>))))) = 8"
  "extra_pd1_pages_allowance (suspend_recalculate_image_contents idle_env True
      (call Free_checksum_pages (free_checksum_pages idle_env)
         (log_event Calculate_check_checksums
            (calculate_check_checksums idle_env (copy_toi\<lparr>extra_pd1_pages_allowance := a\<rparr>))))) = a"
  by (simp_all add: copy_toi_def idle_env_def call_def log_event_def
      suspend_recalculate_image_contents_def eval_pass)

theorem post_context_save_allowance_witness:
  "fst (suspend_post_context_save idle_env (copy_toi\<lparr>extra_pd1_pages_allowance := 4\<rparr>)) = - 1
   \<and> test_result_state TOI_EXTRA_PAGES_ALLOW_TOO_SMALL
       (snd (suspend_post_context_save idle_env (copy_toi\<lparr>extra_pd1_pages_allowance := 4\<rparr>)))
   \<and> extra_pd1_pages_used
       (snd (suspend_post_context_save idle_env (copy_toi\<lparr>extra_pd1_pages_allowance := 4\<rparr>))) = 5
   \<and> fst (suspend_post_context_save idle_env (copy_toi\<lparr>extra_pd1_pages_allowance := 5\<rparr>)) = 0"
proof -
  have old: "pagedir1_size (copy_toi\<lparr>extra_pd1_pages_allowance := a\<rparr>) = 3" for a
    by (simp add: copy_toi_def)
  note small = post_context_save_allowance [of idle_env "copy_toi\<lparr>extra_pd1_pages_allowance := 4\<rparr>",
      unfolded recalc_copy_toi old]
  note large = post_context_save_allowance [of idle_env "copy_toi\<lparr>extra_pd1_pages_allowance := 5\<rparr>",
      unfolded recalc_copy_toi old]
  have a: "fst (suspend_post_context_save idle_env (copy_toi\<lparr>extra_pd1_pages_allowance := 4\<rparr>)) = - 1
   \<and> test_result_state TOI_EXTRA_PAGES_ALLOW_TOO_SMALL
       (snd (suspend_post_context_save idle_env (copy_toi\<lparr>extra_pd1_pages_allowance := 4\<rparr>)))
   \<and> extra_pd1_pages_used
       (snd (suspend_post_context_save idle_env (copy_toi\<lparr>extra_pd1_pages_allowance := 4\<rparr>))) = 5"
    using small by simp
  have c: "fst (suspend_post_context_save idle_env (copy_toi\<lparr>extra_pd1_pages_allowance := 5\<rparr>)) = 0"
    using large by simp
  from a c show ?thesis by simp
qed

section \<open>Properties of the non-conflicting page allocator\<close>

lemma is_chain_update:
  "p \<notin> set ps \<Longrightarrow> is_chain (m(p := x)) first ps = is_chain m first ps"
proof (induction ps arbitrary: first)
  case Nil
  then show ?case by (cases first) simp_all
next
  case (Cons q qs)
  then show ?case by (cases first) auto
qed

lemma ptr_page_ptr [simp]: "ptr_page (page_ptr page) = page"
  by (cases page) (simp_all add: ptr_page_def page_ptr_def)

lemma alloc_pages_Some:
  assumes "alloc_pages h s = (Some page, s1)"
  shows "s1 = s\<lparr>free_pages := removeAll page (free_pages s)\<rparr>"
    and "page \<in> set (free_pages s)" and "h \<or> \<not> PageHighMem (world s) page"
  using assms unfolding alloc_pages_def
  by (auto split: option.splits simp: find_Some_iff)

lemma alloc_pages_None:
  assumes "alloc_pages h s = (None, s1)"
  shows "s1 = s"
  using assms unfolding alloc_pages_def by (auto split: option.splits)

lemma recycle_loop_result:
  "recycle_loop h s = (r, s') \<Longrightarrow>
     s' = s\<lparr>ps2_pfn := ps2_pfn s'\<rparr> \<and>
     (\<forall>page. r = Some page \<longrightarrow>
        \<not> pageset1_map s page \<and> (h \<or> \<not> PageHighMem (world s) page) \<and>
        pageset2_map s page \<and> page \<le> max_pfn (world s) \<and> ps2_pfn s' = page)"
proof (induction h s arbitrary: r s' rule: recycle_loop.induct)
  case (1 h s)
  define s1 where "s1 = s\<lparr>ps2_pfn := get_next_bit_on (max_pfn (world s)) (pageset2_map s) (ps2_pfn s)\<rparr>"
  define s2 where "s2 = s1\<lparr>ps2_pfn := ps2_pfn s1 + 1\<rparr>"
  have mem: "find P ps = Some p \<Longrightarrow> P p" for P :: "nat \<Rightarrow> bool" and ps p
    by (induction ps) (auto split: if_splits)
  have gnb: "get_next_bit_on maxp bm c \<le> maxp \<Longrightarrow> bm (get_next_bit_on maxp bm c)"
    for maxp bm c
    unfolding get_next_bit_on_def
    by (cases "find bm [(if c = maxp + 1 then 0 else c + 1) ..< maxp + 1]")
      (auto dest: mem simp del: upt_Suc)
  have bit: "ps2_pfn s1 \<le> max_pfn (world s) \<Longrightarrow> pageset2_map s (ps2_pfn s1)"
    unfolding s1_def using gnb by simp
  have unfold: "recycle_loop h s =
     (if ps2_pfn s1 \<le> max_pfn (world s1)
         then if \<not> pageset1_map s1 (ps2_pfn s1) \<and> (h \<or> \<not> PageHighMem (world s1) (ps2_pfn s1))
              then (Some (ps2_pfn s1), s1)
              else if ps2_pfn s1 < max_pfn (world s1) then recycle_loop h s1
              else (None, s1)
         else if ps2_pfn s2 < max_pfn (world s2) then recycle_loop h s2 else (None, s2))"
    by (subst recycle_loop.simps) (simp add: Let_def s1_def s2_def)
  have same1: "world s1 = world s" "pageset1_map s1 = pageset1_map s" "pageset2_map s1 = pageset2_map s"
    "s1\<lparr>ps2_pfn := n\<rparr> = s\<lparr>ps2_pfn := n\<rparr>" for n
    by (simp_all add: s1_def)
  have id1: "s1 = s\<lparr>ps2_pfn := ps2_pfn s1\<rparr>" by (simp add: s1_def)
  have same2: "world s2 = world s" "s2\<lparr>ps2_pfn := n\<rparr> = s\<lparr>ps2_pfn := n\<rparr>" for n
    by (simp_all add: s2_def s1_def)
  show ?case
  proof (cases "ps2_pfn s1 \<le> max_pfn (world s1)")
    case le: True
    show ?thesis
    proof (cases "\<not> pageset1_map s1 (ps2_pfn s1) \<and> (h \<or> \<not> PageHighMem (world s1) (ps2_pfn s1))")
      case True
      with le unfold "1.prems" have "r = Some (ps2_pfn s1)" "s' = s1" by simp_all
      with True le bit id1 show ?thesis by (auto simp: same1)
    next
      case rej: False
      show ?thesis
      proof (cases "ps2_pfn s1 < max_pfn (world s1)")
        case True
        have "recycle_loop h s = recycle_loop h s1"
          by (simp only: unfold if_P [OF le] if_not_P [OF rej] if_P [OF True])
        with "1.prems" have "recycle_loop h s1 = (r, s')" by simp
        from "1.IH"(1) [OF s1_def le rej True this] show ?thesis
          by (metis same1)
      next
        case False
        have "recycle_loop h s = (None, s1)"
          by (simp only: unfold if_P [OF le] if_not_P [OF rej] if_not_P [OF False])
        with "1.prems" have "r = None" "s' = s1" by simp_all
        then show ?thesis using id1 by simp
      qed
    qed
  next
    case gt: False
    show ?thesis
    proof (cases "ps2_pfn s2 < max_pfn (world s2)")
      case True
      with gt show ?thesis by (simp add: s2_def s1_def)
    next
      case False
      with gt unfold "1.prems" have "r = None" "s' = s2" by simp_all
      then show ?thesis by (simp add: s2_def s1_def)
    qed
  qed
qed


lemma fresh_loop_result:
  assumes "chained s ps" and "fresh_loop h s = (r, s')"
  shows "\<exists>qs. chained s' (qs @ ps) \<and>
              list_all (\<lambda>q. pageset1_map s q \<and> q \<in> set (free_pages s)) qs \<and>
              set (free_pages s') = set (free_pages s) - set qs - set_option r \<and>
              (\<forall>page. r = Some page \<longrightarrow>
                 \<not> pageset1_map s page \<and> (h \<or> \<not> PageHighMem (world s) page) \<and>
                 page \<in> set (free_pages s)) \<and>
              pageset1_map s' = pageset1_map s \<and> world s' = world s \<and>
              ps2_pfn s' = ps2_pfn s"
  using assms
proof (induction h s arbitrary: ps r s' rule: fresh_loop.induct)
  case (1 h s)
  obtain x s1 where alloc: "alloc_pages h s = (x, s1)" by (cases "alloc_pages h s")
  show ?case
  proof (cases x)
    case None
    with alloc have s1: "s1 = s" by (simp add: alloc_pages_None)
    from alloc None "1.prems"(2)
    have res: "r = None"
      "s' = s\<lparr>events := events s @ [Message ''Failed to get nonconflicting page.'']\<rparr>"
      by (subst (asm) fresh_loop.simps, simp add: s1)+
    have "chained s' ([] @ ps)" using "1.prems"(1) by (simp add: res chained_def)
    then show ?thesis using res by (intro exI [of _ "[]"]) simp
  next
    case (Some page)
    note a = alloc_pages_Some [OF alloc [unfolded Some]]
    show ?thesis
    proof (cases "pageset1_map s1 page")
      case False
      from alloc Some False "1.prems"(2) have res: "r = Some page" "s' = s1"
        by (subst (asm) fresh_loop.simps, simp)+
      have "chained s' ([] @ ps)"
        using "1.prems"(1) by (auto simp: res a(1) chained_def list_all_iff)
      moreover have "set (free_pages s') = set (free_pages s) - set [] - set_option r"
        by (auto simp: res a(1))
      ultimately show ?thesis using False a
        by (intro exI [of _ "[]"]) (simp add: res)
    next
      case True
      define s2 where "s2 = s1\<lparr>memory := (memory s1)
                         (page := (memory s1 page)(0 := page_ptr (first_conflicting_page s1))),
                     first_conflicting_page := Some page\<rparr>"
      from alloc Some True "1.prems"(2) have rec: "fresh_loop h s2 = (r, s')"
        by (subst (asm) fresh_loop.simps) (simp add: s2_def)
      have notin: "page \<notin> set ps"
        using "1.prems"(1) a(2) by (auto simp: chained_def list_all_iff)
      have "is_chain (memory s2) (first_conflicting_page s2) (page # ps)"
        using "1.prems"(1) notin
        by (simp add: s2_def a(1) chained_def is_chain_update)
      then have ch: "chained s2 (page # ps)"
        using "1.prems"(1) notin by (auto simp: chained_def s2_def a(1) list_all_iff)
      from "1.IH" [OF alloc [symmetric] Some True ch [unfolded s2_def] rec [unfolded s2_def]]
      obtain qs where qs: "chained s' (qs @ page # ps)"
        "list_all (\<lambda>q. pageset1_map s2 q \<and> q \<in> set (free_pages s2)) qs"
        "set (free_pages s') = set (free_pages s2) - set qs - set_option r"
        "\<forall>p. r = Some p \<longrightarrow>
                 \<not> pageset1_map s2 p \<and> (h \<or> \<not> PageHighMem (world s2) p) \<and>
                 p \<in> set (free_pages s2)"
        "pageset1_map s' = pageset1_map s2" "world s' = world s2" "ps2_pfn s' = ps2_pfn s2"
        unfolding s2_def [symmetric] by blast
      have same: "pageset1_map s2 = pageset1_map s" "world s2 = world s" "ps2_pfn s2 = ps2_pfn s"
        "free_pages s2 = removeAll page (free_pages s)"
        by (simp_all add: s2_def a(1))
      have "chained s' ((qs @ [page]) @ ps)" using qs(1) by simp
      moreover have "list_all (\<lambda>q. pageset1_map s q \<and> q \<in> set (free_pages s)) (qs @ [page])"
        using qs(2) True a(2) by (auto simp: same a(1) list_all_iff)
      moreover have "set (free_pages s') = set (free_pages s) - set (qs @ [page]) - set_option r"
        using qs(3) by (auto simp: same)
      moreover have "\<forall>p. r = Some p \<longrightarrow>
                 \<not> pageset1_map s p \<and> (h \<or> \<not> PageHighMem (world s) p) \<and>
                 p \<in> set (free_pages s)"
        using qs(4) by (auto simp: same)
      ultimately show ?thesis
        using qs(5-7) same(1-3) by (intro exI [of _ "qs @ [page]"]) simp
    qed
  qed
qed

lemma free_conflicting_pages_chain:
  "is_chain (memory s) (first_conflicting_page s) ps \<Longrightarrow>
   free_conflicting_pages s =
     Some (s\<lparr>first_conflicting_page := None, free_pages := rev ps @ free_pages s\<rparr>)"
proof (induction ps arbitrary: s)
  case Nil
  then have "first_conflicting_page s = None" by (cases "first_conflicting_page s") simp_all
  then show ?case by (subst free_conflicting_pages.simps) simp
next
  case (Cons p ps)
  then have first: "first_conflicting_page s = Some p"
    and rest: "is_chain (memory s) (ptr_page (memory s p 0)) ps"
    by (cases "first_conflicting_page s"; simp)+
  define s1 where "s1 = (free_page p s)\<lparr>first_conflicting_page := ptr_page (memory s p 0)\<rparr>"
  have "is_chain (memory s1) (first_conflicting_page s1) ps"
    using rest by (simp add: s1_def free_page_def)
  from Cons.IH [OF this]
  have "free_conflicting_pages s1 =
      Some (s\<lparr>first_conflicting_page := None, free_pages := rev (p # ps) @ free_pages s\<rparr>)"
    by (simp add: s1_def free_page_def)
  then show ?case
    by (subst free_conflicting_pages.simps) (simp add: first Let_def s1_def)
qed


lemma fresh_loop_page:
  "fresh_loop h s = (Some page, s') \<Longrightarrow>
     \<not> pageset1_map s page \<and> (h \<or> \<not> PageHighMem (world s) page)"
proof (induction h s arbitrary: s' rule: fresh_loop.induct)
  case (1 h s)
  obtain x s1 where alloc: "alloc_pages h s = (x, s1)" by (cases "alloc_pages h s")
  show ?case
  proof (cases x)
    case None
    with alloc "1.prems" show ?thesis by (subst (asm) fresh_loop.simps) simp
  next
    case (Some p)
    note a = alloc_pages_Some [OF alloc [unfolded Some]]
    show ?thesis
    proof (cases "pageset1_map s1 p")
      case False
      from alloc Some False "1.prems" have "page = p"
        by (subst (asm) fresh_loop.simps) simp
      with False a show ?thesis by simp
    next
      case True
      define s2 where "s2 = s1\<lparr>memory := (memory s1)
                         (p := (memory s1 p)(0 := page_ptr (first_conflicting_page s1))),
                     first_conflicting_page := Some p\<rparr>"
      from alloc Some True "1.prems" have rec: "fresh_loop h s2 = (Some page, s')"
        by (subst (asm) fresh_loop.simps) (simp add: s2_def)
      from "1.IH" [OF alloc [symmetric] Some True rec [unfolded s2_def]]
      show ?thesis by (simp add: a(1))
    qed
  qed
qed

text \<open>
  Claim C9. A page returned by \<open>suspend_get_nonconflicting_page\<close> is not set in
  \<^verbatim>\<open>pageset1_map\<close>, and it is a high memory page only if \<open>can_be_highmem\<close> holds. If the list
  of conflicting pages is \<open>ps\<close> before the call, it is \<open>qs @ ps\<close> after it, where the pages
  \<open>qs\<close> are pages of pageset1 that were in the pool: the list has no repetition and none of
  its pages is in the pool, so the pages obtained during the call that are pageset1 pages
  were not freed; every page that left the pool is on the list or is the page returned;
  and \<open>free_conflicting_pages\<close> then returns, with the list empty and all its pages back in
  the pool.
\<close>

theorem nonconflicting_page_postcondition:
  fixes s :: resume and can_be_highmem :: bool
  defines "r \<equiv> fst (suspend_get_nonconflicting_page can_be_highmem s)"
    and "s' \<equiv> snd (suspend_get_nonconflicting_page can_be_highmem s)"
  shows "(\<forall>page. r = Some page \<longrightarrow>
            \<not> pageset1_map s page \<and> (PageHighMem (world s) page \<longrightarrow> can_be_highmem))
       \<and> (\<forall>ps. chained s ps \<longrightarrow>
            (\<exists>qs. chained s' (qs @ ps) \<and>
                  list_all (\<lambda>q. pageset1_map s q \<and> q \<in> set (free_pages s)) qs \<and>
                  set (free_pages s') \<subseteq> set (free_pages s) - set qs \<and>
                  set (free_pages s) - set qs - set_option r \<subseteq> set (free_pages s') \<and>
                  free_conflicting_pages s' =
                    Some (s'\<lparr>first_conflicting_page := None,
                             free_pages := rev (qs @ ps) @ free_pages s'\<rparr>)))"
proof -
  have call: "suspend_get_nonconflicting_page can_be_highmem s = (r, s')"
    by (simp add: r_def s'_def)
  define recycle where "recycle \<longleftrightarrow>
    loading_alt_image s \<and> pageset2_map_allocated s \<and> ps2_pfn s < max_pfn (world s) + 2"
  obtain x s1 where rl: "recycle_loop can_be_highmem s = (x, s1)"
    by (cases "recycle_loop can_be_highmem s")
  note rr = recycle_loop_result [OF rl]
  have s1: "s1 = s\<lparr>ps2_pfn := ps2_pfn s1\<rparr>" using rr by simp
  have same1: "pageset1_map s1 = pageset1_map s" "world s1 = world s"
    "free_pages s1 = free_pages s" "chained s1 ps = chained s ps" for ps
    by (subst s1, simp add: chained_def)+
  consider (recycled) page where "recycle" "x = Some page" "r = Some page" "s' = s1"
    | (fresh1) "recycle" "x = None" "fresh_loop can_be_highmem s1 = (r, s')"
    | (fresh) "\<not> recycle" "fresh_loop can_be_highmem s = (r, s')"
    using call rl unfolding suspend_get_nonconflicting_page_def recycle_def
    by (cases x) (auto split: if_splits)
  then show ?thesis
  proof cases
    case recycled
    have a: "\<not> pageset1_map s page \<and> (PageHighMem (world s) page \<longrightarrow> can_be_highmem)"
      using rr recycled(2) by auto
    have b: "\<exists>qs. chained s' (qs @ ps) \<and>
                  list_all (\<lambda>q. pageset1_map s q \<and> q \<in> set (free_pages s)) qs \<and>
                  set (free_pages s') \<subseteq> set (free_pages s) - set qs \<and>
                  set (free_pages s) - set qs - set_option r \<subseteq> set (free_pages s') \<and>
                  free_conflicting_pages s' =
                    Some (s'\<lparr>first_conflicting_page := None,
                             free_pages := rev (qs @ ps) @ free_pages s'\<rparr>)"
      if "chained s ps" for ps
    proof -
      have "chained s' ([] @ ps)" using that by (simp add: recycled(4) same1)
      moreover from this have "free_conflicting_pages s' =
          Some (s'\<lparr>first_conflicting_page := None, free_pages := rev ([] @ ps) @ free_pages s'\<rparr>)"
        by (simp add: chained_def free_conflicting_pages_chain)
      ultimately show ?thesis
        by (intro exI [of _ "[]"]) (auto simp: recycled(4) same1)
    qed
    from a b show ?thesis by (simp add: recycled(3))
  next
    case fresh1
    have a: "\<forall>page. r = Some page \<longrightarrow>
            \<not> pageset1_map s page \<and> (PageHighMem (world s) page \<longrightarrow> can_be_highmem)"
      using fresh_loop_page [of can_be_highmem s1 _ s'] fresh1(3) by (auto simp: same1)
    have b: "\<exists>qs. chained s' (qs @ ps) \<and>
                  list_all (\<lambda>q. pageset1_map s q \<and> q \<in> set (free_pages s)) qs \<and>
                  set (free_pages s') \<subseteq> set (free_pages s) - set qs \<and>
                  set (free_pages s) - set qs - set_option r \<subseteq> set (free_pages s') \<and>
                  free_conflicting_pages s' =
                    Some (s'\<lparr>first_conflicting_page := None,
                             free_pages := rev (qs @ ps) @ free_pages s'\<rparr>)"
      if "chained s ps" for ps
    proof -
      from that have "chained s1 ps" by (simp add: same1)
      from fresh_loop_result [OF this fresh1(3)]
      obtain qs where qs: "chained s' (qs @ ps)"
        "list_all (\<lambda>q. pageset1_map s q \<and> q \<in> set (free_pages s)) qs"
        "set (free_pages s') = set (free_pages s) - set qs - set_option r"
        unfolding same1 by blast
      from qs(1) have "free_conflicting_pages s' =
          Some (s'\<lparr>first_conflicting_page := None, free_pages := rev (qs @ ps) @ free_pages s'\<rparr>)"
        unfolding chained_def by (intro free_conflicting_pages_chain) (rule conjunct1)
      with qs show ?thesis by (intro exI [of _ qs]) auto
    qed
    from a b show ?thesis by simp
  next
    case fresh
    have a: "\<forall>page. r = Some page \<longrightarrow>
            \<not> pageset1_map s page \<and> (PageHighMem (world s) page \<longrightarrow> can_be_highmem)"
      using fresh_loop_page [of can_be_highmem s _ s'] fresh(2) by auto
    have b: "\<exists>qs. chained s' (qs @ ps) \<and>
                  list_all (\<lambda>q. pageset1_map s q \<and> q \<in> set (free_pages s)) qs \<and>
                  set (free_pages s') \<subseteq> set (free_pages s) - set qs \<and>
                  set (free_pages s) - set qs - set_option r \<subseteq> set (free_pages s') \<and>
                  free_conflicting_pages s' =
                    Some (s'\<lparr>first_conflicting_page := None,
                             free_pages := rev (qs @ ps) @ free_pages s'\<rparr>)"
      if "chained s ps" for ps
    proof -
      from fresh_loop_result [OF that fresh(2)]
      obtain qs where qs: "chained s' (qs @ ps)"
        "list_all (\<lambda>q. pageset1_map s q \<and> q \<in> set (free_pages s)) qs"
        "set (free_pages s') = set (free_pages s) - set qs - set_option r"
        by blast
      from qs(1) have "free_conflicting_pages s' =
          Some (s'\<lparr>first_conflicting_page := None, free_pages := rev (qs @ ps) @ free_pages s'\<rparr>)"
        unfolding chained_def by (intro free_conflicting_pages_chain) (rule conjunct1)
      with qs show ?thesis by (intro exI [of _ qs]) auto
    qed
    from a b show ?thesis by simp
  qed
qed

lemma alloc_resume_fields:
  "pageset1_map alloc_resume = (\<lambda>p. p = 3 \<or> p = 5)"
  "pageset2_map alloc_resume = (\<lambda>p. p = 3 \<or> p = 4)"
  "PageHighMem (world alloc_resume) = (\<lambda>p. 6 \<le> p)"
  "max_pfn (world alloc_resume) = 7"
  "loading_alt_image alloc_resume = False"
  "pageset2_map_allocated alloc_resume = True"
  "ps2_pfn alloc_resume = 8"
  "first_conflicting_page alloc_resume = None"
  "free_pages alloc_resume = [6, 3, 5, 2, 4]"
  by (simp_all add: alloc_resume_def toi.defs resume.defs copy_toi_def simple_toi_def simple_world_def)

lemma fresh_alloc_resume:
  "fst (suspend_get_nonconflicting_page False alloc_resume) = Some 2"
  "first_conflicting_page (snd (suspend_get_nonconflicting_page False alloc_resume)) = Some 5"
  "free_pages (snd (suspend_get_nonconflicting_page False alloc_resume)) = [6, 4]"
  "memory (snd (suspend_get_nonconflicting_page False alloc_resume)) 5 0 = page_ptr (Some 3)"
  "memory (snd (suspend_get_nonconflicting_page False alloc_resume)) 3 0 = page_ptr None"
  by (simp_all add: suspend_get_nonconflicting_page_def alloc_resume_fields fresh_loop.simps
      alloc_pages_def)

lemma recycle_alloc_resume:
  "fst (suspend_get_nonconflicting_page False (alloc_resume\<lparr>loading_alt_image := True\<rparr>)) = Some 4"
  "ps2_pfn (snd (suspend_get_nonconflicting_page False (alloc_resume\<lparr>loading_alt_image := True\<rparr>))) = 4"
  by (simp_all add: suspend_get_nonconflicting_page_def alloc_resume_fields recycle_loop.simps
      get_next_bit_on_def Let_def upt_rec [of _ "numeral k" for k] upt_rec [of _ "Suc k" for k])


lemma is_chain_unique: "is_chain m first ps \<Longrightarrow> is_chain m first qs \<Longrightarrow> ps = qs"
proof (induction ps arbitrary: first qs)
  case Nil
  then show ?case by (cases first; cases qs) simp_all
next
  case (Cons p ps)
  then show ?case by (cases first; cases qs) auto
qed

theorem nonconflicting_page_postcondition_witness:
  "fst (suspend_get_nonconflicting_page False alloc_resume) = Some 2
   \<and> \<not> pageset1_map alloc_resume 2 \<and> \<not> PageHighMem (world alloc_resume) 2
   \<and> first_conflicting_page (snd (suspend_get_nonconflicting_page False alloc_resume)) = Some 5
   \<and> free_pages (snd (suspend_get_nonconflicting_page False alloc_resume)) = [6, 4]
   \<and> map_option free_pages
        (free_conflicting_pages (snd (suspend_get_nonconflicting_page False alloc_resume)))
       = Some [3, 5, 6, 4]
   \<and> map_option first_conflicting_page
        (free_conflicting_pages (snd (suspend_get_nonconflicting_page False alloc_resume)))
       = Some None
   \<and> fst (suspend_get_nonconflicting_page False (alloc_resume\<lparr>loading_alt_image := True\<rparr>))
       = Some 4"
proof -
  let ?s' = "snd (suspend_get_nonconflicting_page False alloc_resume)"
  note t = nonconflicting_page_postcondition [of False alloc_resume]
  have start: "chained alloc_resume []"
    by (simp add: chained_def alloc_resume_fields)
  from t [THEN conjunct1, rule_format, OF fresh_alloc_resume(1)]
  have page: "\<not> pageset1_map alloc_resume 2 \<and> \<not> PageHighMem (world alloc_resume) 2"
    by simp
  from t [THEN conjunct2, rule_format, OF start]
  obtain qs where qs: "chained ?s' (qs @ [])"
    "free_conflicting_pages ?s' =
       Some (?s'\<lparr>first_conflicting_page := None, free_pages := rev (qs @ []) @ free_pages ?s'\<rparr>)"
    by blast
  have "is_chain (memory ?s') (first_conflicting_page ?s') [5, 3]"
    by (simp add: fresh_alloc_resume)
  moreover have "is_chain (memory ?s') (first_conflicting_page ?s') qs"
    using qs(1) by (simp add: chained_def)
  ultimately have "qs = [5, 3]" by (rule is_chain_unique [symmetric])
  with qs(2) have freed:
    "map_option free_pages (free_conflicting_pages ?s') = Some [3, 5, 6, 4]"
    "map_option first_conflicting_page (free_conflicting_pages ?s') = Some None"
    by (simp_all add: fresh_alloc_resume)
  from page freed show ?thesis
    by (simp add: fresh_alloc_resume(1-3) recycle_alloc_resume(1))
qed

section \<open>The claims at concrete sessions\<close>






end
